theory Spec2Isabelle
  imports Complex_Main "HOL-Library.Product_Lexorder"
begin

section \<open>Python values and errors\<close>

text \<open>
  Cells are pairs of Python integers, 1-based, origin bottom-left. The navigation grid is
  a list of rows of integers (0 blocked, 1 traversable); row 0 is the top row.
  An exception of the source is the left summand of a result.
\<close>

type_synonym pos = "int \<times> int"
type_synonym grid = "int list list"

datatype py_error = IndexError | KeyError | ZeroDivisionError | ValueError

text \<open>Python list indexing: a negative index counts from the end, out of range raises.\<close>

definition py_index :: "'a list \<Rightarrow> int \<Rightarrow> py_error + 'a" where
  "py_index xs i =
     (if 0 \<le> i \<and> i < int (length xs) then Inr (xs ! nat i)
      else if i < 0 \<and> - int (length xs) \<le> i then Inr (xs ! nat (int (length xs) + i))
      else Inl IndexError)"

text \<open>\<open>grid[gy][gx]\<close>\<close>

definition grid_get :: "grid \<Rightarrow> int \<Rightarrow> int \<Rightarrow> py_error + int" where
  "grid_get g gy gx =
     (case py_index g gy of Inl e \<Rightarrow> Inl e | Inr row \<Rightarrow> py_index row gx)"

definition grid_height :: "grid \<Rightarrow> int" where
  "grid_height g = int (length g)"

text \<open>\<open>len(grid[0]) if height > 0 else 0\<close>\<close>

definition grid_width :: "grid \<Rightarrow> int" where
  "grid_width g = (case g of [] \<Rightarrow> 0 | row # _ \<Rightarrow> int (length row))"

section \<open>astar.py\<close>

definition manhattan_distance :: "pos \<Rightarrow> pos \<Rightarrow> int" where
  "manhattan_distance pos1 pos2 = \<bar>fst pos1 - fst pos2\<bar> + \<bar>snd pos1 - snd pos2\<bar>"

definition directions :: "(int \<times> int) list" where
  "directions = [(0, 1), (0, -1), (-1, 0), (1, 0)]"

text \<open>The loop of \<open>get_neighbors\<close> over the four directions; \<open>acc\<close> is \<open>neighbors\<close>.\<close>

fun neighbors_loop :: "pos \<Rightarrow> grid \<Rightarrow> (int \<times> int) list \<Rightarrow> pos list \<Rightarrow> py_error + pos list" where
  "neighbors_loop p g [] acc = Inr acc"
| "neighbors_loop p g (d # ds) acc =
     (let new_x = fst p + fst d; new_y = snd p + snd d in
      if 1 \<le> new_x \<and> new_x \<le> grid_width g \<and> 1 \<le> new_y \<and> new_y \<le> grid_height g then
        (case grid_get g (grid_height g - new_y) (new_x - 1) of
           Inl e \<Rightarrow> Inl e
         | Inr v \<Rightarrow> neighbors_loop p g ds (if v = 1 then acc @ [(new_x, new_y)] else acc))
      else neighbors_loop p g ds acc)"

definition get_neighbors :: "pos \<Rightarrow> grid \<Rightarrow> py_error + pos list" where
  "get_neighbors p g = neighbors_loop p g directions []"

text \<open>
  The open set is a \<open>heapq\<close> of tuples \<open>(f, counter, position)\<close>. Only the entries it
  holds and the least of them (tuples compare lexicographically) are observable through
  \<open>heappush\<close> and \<open>heappop\<close>, so the heap is the list of its entries.
  The dictionary \<open>f_score\<close> of the source is written and never read; it is left out.
\<close>

type_synonym entry = "int \<times> int \<times> pos"

definition heappush :: "entry list \<Rightarrow> entry \<Rightarrow> entry list" where
  "heappush h x = x # h"

definition heap_min :: "entry list \<Rightarrow> entry" where
  "heap_min h = fold min (tl h) (hd h)"

record astar_state =
  open_set :: "entry list"
  came_from :: "pos \<rightharpoonup> pos"
  g_score :: "pos \<rightharpoonup> int"
  closed_set :: "pos set"
  counter :: int

text \<open>The \<open>for neighbor in ...\<close> loop of one expansion of \<open>current\<close>.\<close>

fun explore :: "pos \<Rightarrow> pos \<Rightarrow> pos list \<Rightarrow> astar_state \<Rightarrow> py_error + astar_state" where
  "explore current end [] st = Inr st"
| "explore current end (neighbor # rest) st =
     (if neighbor \<in> closed_set st then explore current end rest st
      else case g_score st current of
        None \<Rightarrow> Inl KeyError
      | Some gc \<Rightarrow>
          (let tentative_g = gc + 1 in
           if (case g_score st neighbor of None \<Rightarrow> True | Some gn \<Rightarrow> tentative_g < gn) then
             explore current end rest
               (st\<lparr>came_from := (came_from st)(neighbor \<mapsto> current),
                   g_score := (g_score st)(neighbor \<mapsto> tentative_g),
                   counter := counter st + 1,
                   open_set := heappush (open_set st)
                     (tentative_g + manhattan_distance neighbor end, counter st + 1, neighbor)\<rparr>)
           else explore current end rest st))"

text \<open>
  \<open>path = [end]; while tuple(path[-1]) in came_from: path.append(came_from[...])\<close>.
  The loop runs forever on a cyclic \<open>came_from\<close>, so not returning is \<open>None\<close>.
\<close>

partial_function (option) reconstruct :: "(pos \<rightharpoonup> pos) \<Rightarrow> pos list \<Rightarrow> pos list option" where
  "reconstruct cf path =
     (case cf (last path) of
        None \<Rightarrow> Some path
      | Some prev \<Rightarrow> reconstruct cf (path @ [prev]))"

text \<open>The \<open>while open_set\<close> loop. The outer option is non-termination.\<close>

partial_function (option) astar_loop ::
  "pos \<Rightarrow> grid \<Rightarrow> astar_state \<Rightarrow> (py_error + pos list option) option" where
  "astar_loop end g st =
     (if open_set st = [] then Some (Inr None)
      else
        let ent = heap_min (open_set st);
            current = snd (snd ent)
        in if current = end then
             (case reconstruct (came_from st) [end] of
                None \<Rightarrow> None
              | Some path \<Rightarrow> Some (Inr (Some (rev path))))
           else
             (case get_neighbors current g of
                Inl e \<Rightarrow> Some (Inl e)
              | Inr nbs \<Rightarrow>
                  (case explore current end nbs
                          (st\<lparr>open_set := remove1 ent (open_set st),
                              closed_set := insert current (closed_set st)\<rparr>) of
                     Inl e \<Rightarrow> Some (Inl e)
                   | Inr st' \<Rightarrow> astar_loop end g st')))"

definition astar_init :: "pos \<Rightarrow> astar_state" where
  "astar_init start =
     \<lparr>open_set = heappush [] (0, 0, start), came_from = Map.empty,
      g_score = [start \<mapsto> 0], closed_set = {}, counter = 0\<rparr>"

definition astar_path :: "pos \<Rightarrow> pos \<Rightarrow> grid \<Rightarrow> (py_error + pos list option) option" where
  "astar_path start end g =
     (if start = end then Some (Inr (Some [start]))
      else
        let height = grid_height g; width = grid_width g;
            start_grid_x = fst start - 1; start_grid_y = height - snd start;
            end_grid_x = fst end - 1; end_grid_y = height - snd end
        in if \<not> (0 \<le> start_grid_x \<and> start_grid_x < width \<and> 0 \<le> start_grid_y \<and> start_grid_y < height)
             then Some (Inr None)
           else if \<not> (0 \<le> end_grid_x \<and> end_grid_x < width \<and> 0 \<le> end_grid_y \<and> end_grid_y < height)
             then Some (Inr None)
           else (case grid_get g start_grid_y start_grid_x of
                   Inl e \<Rightarrow> Some (Inl e)
                 | Inr sv \<Rightarrow>
                     if sv = 0 then Some (Inr None)
                     else (case grid_get g end_grid_y end_grid_x of
                             Inl e \<Rightarrow> Some (Inl e)
                           | Inr ev \<Rightarrow>
                               if ev = 0 then Some (Inr None)
                               else astar_loop end g (astar_init start))))"

definition calculate_distance :: "pos \<Rightarrow> pos \<Rightarrow> grid \<Rightarrow> (py_error + int) option" where
  "calculate_distance start end g =
     (case astar_path start end g of
        None \<Rightarrow> None
      | Some (Inl e) \<Rightarrow> Some (Inl e)
      | Some (Inr None) \<Rightarrow> Some (Inr (manhattan_distance start end))
      | Some (Inr (Some path)) \<Rightarrow> Some (Inr (int (length path) - 1)))"

subsection \<open>Vocabulary of the grid\<close>

definition in_bounds :: "grid \<Rightarrow> pos \<Rightarrow> bool" where
  "in_bounds g p \<longleftrightarrow> 1 \<le> fst p \<and> fst p \<le> grid_width g \<and> 1 \<le> snd p \<and> snd p \<le> grid_height g"

text \<open>The value of the grid at a cell, as the source reads it.\<close>

definition cell_value :: "grid \<Rightarrow> pos \<Rightarrow> py_error + int" where
  "cell_value g p = grid_get g (grid_height g - snd p) (fst p - 1)"

definition blocked :: "grid \<Rightarrow> pos \<Rightarrow> bool" where
  "blocked g p \<longleftrightarrow> in_bounds g p \<and> cell_value g p = Inr 0"

definition traversable :: "grid \<Rightarrow> pos \<Rightarrow> bool" where
  "traversable g p \<longleftrightarrow> in_bounds g p \<and> cell_value g p = Inr 1"

definition rectangular :: "grid \<Rightarrow> bool" where
  "rectangular g \<longleftrightarrow> list_all (\<lambda>row. int (length row) = grid_width g) g"

definition adjacent4 :: "pos \<Rightarrow> pos \<Rightarrow> bool" where
  "adjacent4 p q \<longleftrightarrow> manhattan_distance p q = 1"

text \<open>
  What the endpoint check of \<open>astar_path\<close> accepts: a cell in bounds whose value is
  not 0. On a grid of 0 and 1 this is \<open>traversable\<close>.
\<close>

definition passable :: "grid \<Rightarrow> pos \<Rightarrow> bool" where
  "passable g p \<longleftrightarrow> in_bounds g p \<and> (\<exists>v. cell_value g p = Inr v \<and> v \<noteq> 0)"

definition grid_step :: "grid \<Rightarrow> pos \<Rightarrow> pos \<Rightarrow> bool" where
  "grid_step g a b \<longleftrightarrow> adjacent4 a b \<and> passable g a \<and> traversable g b"

definition node :: "entry \<Rightarrow> pos" where
  "node e = snd (snd e)"

definition path_inv :: "pos \<Rightarrow> grid \<Rightarrow> astar_state \<Rightarrow> bool" where
  "path_inv start g st \<longleftrightarrow>
     (\<forall>m c. came_from st m = Some c \<longrightarrow>
        c \<in> closed_set st \<and> adjacent4 c m \<and> traversable g m \<and> m \<noteq> start)
     \<and> (\<forall>c \<in> closed_set st. c = start \<or> c \<in> dom (came_from st))
     \<and> (\<forall>e \<in> set (open_set st). node e = start \<or> node e \<in> dom (came_from st))
     \<and> (start \<in> closed_set st \<or> (\<forall>e \<in> set (open_set st). node e = start))"

subsection \<open>Walks, and the invariant of the search\<close>

text \<open>
  One move of the search: to a 4-neighbour that is traversable. \<open>reach g s k v\<close>: some
  walk of \<open>k\<close> moves leads from \<open>s\<close> to \<open>v\<close>.
\<close>

definition edge :: "grid \<Rightarrow> pos \<Rightarrow> pos \<Rightarrow> bool" where
  "edge g u v \<longleftrightarrow> adjacent4 u v \<and> traversable g v"

inductive reach :: "grid \<Rightarrow> pos \<Rightarrow> nat \<Rightarrow> pos \<Rightarrow> bool" for g :: grid and s :: pos where
  reach_0: "reach g s 0 s"
| reach_Suc: "reach g s k u \<Longrightarrow> edge g u v \<Longrightarrow> reach g s (Suc k) v"

definition binary_grid :: "grid \<Rightarrow> bool" where
  "binary_grid g \<longleftrightarrow> list_all (list_all (\<lambda>v. v = 0 \<or> v = 1)) g"

text \<open>
  The invariant of the \<open>while\<close> loop that gives optimality and termination. Between the
  pop of a node and the end of its expansion the node is closed before its neighbours are
  relaxed: \<open>X\<close> holds the closed nodes still being expanded.
\<close>

definition search_inv :: "pos \<Rightarrow> pos \<Rightarrow> grid \<Rightarrow> pos set \<Rightarrow> astar_state \<Rightarrow> bool" where
  "search_inv s e g X st \<longleftrightarrow>
     g_score st s = Some 0
   \<and> (\<forall>v gv. g_score st v = Some gv \<longrightarrow> 0 \<le> gv \<and> reach g s (nat gv) v)
   \<and> (\<forall>v \<in> closed_set st. \<forall>gv k. g_score st v = Some gv \<longrightarrow> reach g s k v \<longrightarrow> gv \<le> int k)
   \<and> (\<forall>u \<in> closed_set st. u \<in> dom (g_score st))
   \<and> (\<forall>u \<in> closed_set st - X. \<forall>v. edge g u v \<longrightarrow>
         (\<exists>gu gv. g_score st u = Some gu \<and> g_score st v = Some gv \<and> gv \<le> gu + 1))
   \<and> (\<forall>v gv. g_score st v = Some gv \<and> v \<notin> closed_set st \<longrightarrow>
         (\<exists>f c. (f, c, v) \<in> set (open_set st) \<and> f \<le> gv + manhattan_distance v e))
   \<and> (\<forall>x \<in> set (open_set st).
         \<exists>gv. g_score st (node x) = Some gv \<and> (node x = s \<or> gv + manhattan_distance (node x) e \<le> fst x))
   \<and> (s \<in> closed_set st \<or> (\<exists>c. (0, c, s) \<in> set (open_set st)))
   \<and> (\<forall>m c. came_from st m = Some c \<longrightarrow>
         c \<in> closed_set st \<and> (\<exists>gc. g_score st c = Some gc \<and> g_score st m = Some (gc + 1)))
   \<and> e \<notin> closed_set st"

abbreviation opt_inv :: "pos \<Rightarrow> pos \<Rightarrow> grid \<Rightarrow> astar_state \<Rightarrow> bool" where
  "opt_inv s e g st \<equiv> search_inv s e g {} st"

text \<open>One relaxation: the update of \<open>explore\<close> for a neighbour that is not closed.\<close>

definition relax :: "pos \<Rightarrow> pos \<Rightarrow> pos \<Rightarrow> int \<Rightarrow> astar_state \<Rightarrow> astar_state" where
  "relax current e neighbor tentative_g st =
     st\<lparr>came_from := (came_from st)(neighbor \<mapsto> current),
        g_score := (g_score st)(neighbor \<mapsto> tentative_g),
        counter := counter st + 1,
        open_set := heappush (open_set st)
          (tentative_g + manhattan_distance neighbor e, counter st + 1, neighbor)\<rparr>"

text \<open>
  The measure of the \<open>while\<close> loop, in lexicographic order: the cells of the grid without
  a score, then twice the sum of the scores plus the size of the heap.
\<close>

definition score_sum :: "grid \<Rightarrow> astar_state \<Rightarrow> nat" where
  "score_sum g st = (\<Sum>p | in_bounds g p. case g_score st p of None \<Rightarrow> 0 | Some gv \<Rightarrow> nat gv)"

definition search_measure :: "grid \<Rightarrow> astar_state \<Rightarrow> nat \<times> nat" where
  "search_measure g st =
     (card {p. in_bounds g p \<and> g_score st p = None}, 2 * score_sum g st + length (open_set st))"

text \<open>The number of moves of a shortest walk.\<close>

definition shortest :: "grid \<Rightarrow> pos \<Rightarrow> pos \<Rightarrow> nat" where
  "shortest g s e = (LEAST k. reach g s k e)"

section \<open>Python floats\<close>

text \<open>
  A Python float is a binary64 number of IEEE 754: a finite one is \<open>m * 2 ^ e\<close> with an
  integer \<open>m\<close> of magnitude below \<open>2 ^ 53\<close>, and is held here as that rational. An
  arithmetic operation returns the exact result rounded to the nearest such number, a
  tie going to the even \<open>m\<close>. \<open>expo\<close> finds the binary exponent of a number by halving
  or doubling it into the interval from 1 to 2.

  The range of the exponent is not modelled: a result of magnitude \<open>2 ^ 1024\<close> or more
  is \<open>inf\<close> in Python, on which \<open>int\<close> raises \<open>OverflowError\<close>, and the JSON reader
  accepts \<open>Infinity\<close> and \<open>NaN\<close>; these values are outside the model. An \<open>int\<close> of
  magnitude below \<open>2 ^ 53\<close> is the float of the same value, and Python's arithmetic on
  such ints agrees with the one on floats while the results stay below \<open>2 ^ 53\<close>.
\<close>

function halvings :: "rat \<Rightarrow> nat" where
  "halvings x = (if 2 \<le> x then Suc (halvings (x / 2)) else 0)"
  by pat_completeness auto
termination
proof (relation "measure (\<lambda>x. nat \<lfloor>x\<rfloor>)")
  show "wf (measure (\<lambda>x::rat. nat \<lfloor>x\<rfloor>))" by simp
next
  fix x :: rat
  assume x: "2 \<le> x"
  then have "x / 2 \<le> x - 1" by simp
  then have "\<lfloor>x / 2\<rfloor> \<le> \<lfloor>x - 1\<rfloor>" by (rule floor_mono)
  moreover from x have "2 \<le> \<lfloor>x\<rfloor>" by (simp add: le_floor_iff)
  ultimately show "(x / 2, x) \<in> measure (\<lambda>x. nat \<lfloor>x\<rfloor>)" by simp
qed

function doublings :: "rat \<Rightarrow> nat" where
  "doublings x = (if 0 < x \<and> x < 1 then Suc (doublings (x * 2)) else 0)"
  by pat_completeness auto
termination
proof (relation "measure (\<lambda>x. nat \<lfloor>2 / x\<rfloor>)")
  show "wf (measure (\<lambda>x::rat. nat \<lfloor>2 / x\<rfloor>))" by simp
next
  fix x :: rat
  assume "0 < x \<and> x < 1"
  then have x: "0 < x" "x < 1" by simp_all
  then have z: "2 \<le> 2 / x" by (simp add: le_divide_eq)
  from x have "2 / (x * 2) \<le> 2 / x - 1" by (simp add: field_simps)
  then have "\<lfloor>2 / (x * 2)\<rfloor> \<le> \<lfloor>2 / x - 1\<rfloor>" by (rule floor_mono)
  moreover from z have "2 \<le> \<lfloor>2 / x\<rfloor>" by (simp add: le_floor_iff)
  ultimately show "(x * 2, x) \<in> measure (\<lambda>x. nat \<lfloor>2 / x\<rfloor>)" by simp
qed

definition expo :: "rat \<Rightarrow> int" where
  "expo x = (if 1 \<le> \<bar>x\<bar> then int (halvings \<bar>x\<bar>) else - int (doublings \<bar>x\<bar>))"

definition round_half_even :: "rat \<Rightarrow> int" where
  "round_half_even r =
     (let f = \<lfloor>r\<rfloor>; d = r - of_int f in
      if d < 1 / 2 then f else if 1 / 2 < d then f + 1 else if even f then f else f + 1)"

definition double_round :: "rat \<Rightarrow> rat" where
  "double_round x =
     (if x = 0 then 0
      else let quantum = 2 powi (expo x - 52) in of_int (round_half_even (x / quantum)) * quantum)"

text \<open>\<open>x * y\<close>, \<open>x / y\<close> and \<open>x + y\<close> on floats, and the float of an \<open>int\<close>.\<close>

definition float_mul :: "rat \<Rightarrow> rat \<Rightarrow> rat" where
  "float_mul x y = double_round (x * y)"

definition float_div :: "rat \<Rightarrow> rat \<Rightarrow> rat" where
  "float_div x y = double_round (x / y)"

definition float_add :: "rat \<Rightarrow> rat \<Rightarrow> rat" where
  "float_add x y = double_round (x + y)"

definition int_to_float :: "int \<Rightarrow> rat" where
  "int_to_float n = double_round (of_int n)"

section \<open>optimizer\_mintime.py\<close>

text \<open>
  The keyed tables of the source are records. A number of the catalogue files (weight,
  volume, capacity, speed) is held as the rational it is in Python: for a float, the
  binary64 number the JSON reader makes of the decimal in the file. Arithmetic on these
  numbers is that of the section on Python floats. A clock string \<open>HH:MM\<close> is held as
  its two numbers.
  \<open>fragile\<close> is \<open>product.get('fragile', False)\<close>; \<open>no_fragile\<close> and \<open>max_item_weight\<close>
  are the two entries of \<open>agent.get('restrictions', {})\<close> the source reads, the second
  absent (\<open>None\<close>) when the source takes \<open>float('inf')\<close>.
\<close>

record product =
  pid :: string
  category :: string
  weight :: rat
  volume :: rat
  fragile :: bool
  location :: string
  pickup_location :: pos
  incompatible_with :: "string list"

record agent =
  aid :: string
  atype :: string
  capacity_weight :: rat
  capacity_volume :: int
  speed :: rat
  no_fragile :: bool
  max_item_weight :: "rat option"

record order_item =
  product_id :: string
  quantity :: int

record order =
  oid :: string
  priority :: string
  deadline :: "int \<times> int"
  items :: "order_item list"

text \<open>An element of \<open>products_to_pick\<close>, and the same with the solver's values added.\<close>

record pick_unit =
  u_product_id :: string
  u_order_id :: string
  u_product_data :: product
  u_deadline :: "int \<times> int"
  u_priority :: string

record pick = pick_unit +
  visit_time :: int
  trip_number :: int

type_synonym distances = "string \<times> string \<rightharpoonup> int"

definition time_to_minutes :: "int \<times> int \<Rightarrow> int" where
  "time_to_minutes t = (fst t * 60 + snd t) - 9 * 60"

definition can_agent_handle_product :: "agent \<Rightarrow> product \<Rightarrow> string list \<Rightarrow> bool" where
  "can_agent_handle_product ag p robot_accessible_storage =
     (if atype ag = ''robot'' then
        (if location p \<notin> set robot_accessible_storage then False
         else if category p = ''food'' then False
         else if no_fragile ag \<and> fragile p then False
         else if (case max_item_weight ag of None \<Rightarrow> False | Some mw \<Rightarrow> weight p > mw) then False
         else True)
      else True)"

text \<open>\<open>{p['id']: p for p in products}\<close>: the last product of an id wins.\<close>

definition product_dict :: "product list \<Rightarrow> string \<rightharpoonup> product" where
  "product_dict ps = map_of (rev (map (\<lambda>p. (pid p, p)) ps))"

text \<open>
  The loops that fill \<open>products_to_pick\<close>. \<open>product_dict[prod_id]\<close> is read inside
  \<open>for _ in range(quantity)\<close>, so an unknown id raises only for a positive quantity.
\<close>

fun units_of_items :: "(string \<rightharpoonup> product) \<Rightarrow> order \<Rightarrow> order_item list \<Rightarrow> py_error + pick_unit list" where
  "units_of_items pd ord [] = Inr []"
| "units_of_items pd ord (it # its) =
     (if quantity it \<le> 0 then units_of_items pd ord its
      else case pd (product_id it) of
        None \<Rightarrow> Inl KeyError
      | Some p \<Rightarrow>
          (case units_of_items pd ord its of
             Inl e \<Rightarrow> Inl e
           | Inr us \<Rightarrow>
               Inr (replicate (nat (quantity it))
                      \<lparr>u_product_id = product_id it, u_order_id = oid ord, u_product_data = p,
                       u_deadline = deadline ord, u_priority = priority ord\<rparr> @ us)))"

fun units_of_orders :: "(string \<rightharpoonup> product) \<Rightarrow> order list \<Rightarrow> py_error + pick_unit list" where
  "units_of_orders pd [] = Inr []"
| "units_of_orders pd (ord # ords) =
     (case units_of_items pd ord (items ord) of
        Inl e \<Rightarrow> Inl e
      | Inr us \<Rightarrow>
          (case units_of_orders pd ords of
             Inl e \<Rightarrow> Inl e
           | Inr vs \<Rightarrow> Inr (us @ vs)))"

definition products_to_pick :: "order list \<Rightarrow> product list \<Rightarrow> py_error + pick_unit list" where
  "products_to_pick available_orders products = units_of_orders (product_dict products) available_orders"

subsection \<open>The constraint model\<close>

text \<open>
  The solver is a library outside the repository. A valuation gives a value to every
  variable \<open>optimize_routes\<close> creates (a \<open>NewBoolVar\<close> is a \<open>bool\<close>); the predicates below
  are the constraints the function posts, in its order, \<open>OnlyEnforceIf\<close> being an
  implication from its literals. Units and agents are indexed as in the source.
\<close>

record valuation =
  v_assign :: "nat \<Rightarrow> nat \<Rightarrow> bool"
  v_trip :: "nat \<Rightarrow> nat \<Rightarrow> int"
  v_visit :: "nat \<Rightarrow> int"
  v_before :: "nat \<Rightarrow> nat \<Rightarrow> nat \<Rightarrow> bool"
  v_both :: "nat \<Rightarrow> nat \<Rightarrow> nat \<Rightarrow> bool"
  v_same_trip :: "nat \<Rightarrow> nat \<Rightarrow> nat \<Rightarrow> bool"
  v_in_trip_w :: "nat \<Rightarrow> nat \<Rightarrow> int \<Rightarrow> bool"
  v_in_trip_v :: "nat \<Rightarrow> nat \<Rightarrow> int \<Rightarrow> bool"
  v_incomp_both :: "nat \<Rightarrow> nat \<Rightarrow> nat \<Rightarrow> bool"
  v_incomp_same :: "nat \<Rightarrow> nat \<Rightarrow> nat \<Rightarrow> bool"
  v_prio_both :: "nat \<Rightarrow> nat \<Rightarrow> nat \<Rightarrow> bool"
  v_agent_used :: "nat \<Rightarrow> bool"
  v_human_to_cart :: "nat \<Rightarrow> nat \<Rightarrow> bool"
  v_time_contrib :: "nat \<Rightarrow> nat \<Rightarrow> int"
  v_last_time :: "nat \<Rightarrow> int"
  v_max_end :: int

definition MAX_TRIPS :: int where "MAX_TRIPS = 15"
definition TIME_START :: int where "TIME_START = 0"
definition TIME_END :: int where "TIME_END = 480"
definition PICKING_TIME :: int where "PICKING_TIME = 1"
definition METERS_PER_CELL :: int where "METERS_PER_CELL = 3"
definition DEPOT_TIME :: int where "DEPOT_TIME = 2"
definition PREPARATION_POINT :: pos where "PREPARATION_POINT = (6, 5)"

text \<open>Python's \<open>int(x)\<close> of a float: truncation towards zero.\<close>

definition py_int :: "rat \<Rightarrow> int" where
  "py_int x = (if 0 \<le> x then \<lfloor>x\<rfloor> else \<lceil>x\<rceil>)"

text \<open>
  \<open>assignment[(i, a)]\<close> is a variable exactly when the agent can handle the product, and
  the constant 0 otherwise.
\<close>

definition is_var :: "agent list \<Rightarrow> pick_unit list \<Rightarrow> string list \<Rightarrow> nat \<Rightarrow> nat \<Rightarrow> bool" where
  "is_var agents units zones i a =
     can_agent_handle_product (agents ! a) (u_product_data (units ! i)) zones"

text \<open>
  \<open>int(distance_meters / agent_speed_m_per_min) + 1\<close>, where \<open>distance_meters\<close> is the
  \<open>int\<close> \<open>distance_cases * METERS_PER_CELL\<close> and the division is the one of floats.
\<close>

definition travel_time :: "int \<Rightarrow> rat \<Rightarrow> int" where
  "travel_time distance_cases agent_speed_m_per_min =
     py_int (float_div (int_to_float (distance_cases * METERS_PER_CELL)) agent_speed_m_per_min) + 1"

text \<open>\<open>distance_data['distances'].get((prod_i_id, prod_j_id), 0)\<close>\<close>

definition distance_cases :: "distances \<Rightarrow> string \<Rightarrow> string \<Rightarrow> int" where
  "distance_cases dd prod_i_id prod_j_id =
     (case dd (prod_i_id, prod_j_id) of None \<Rightarrow> 0 | Some d \<Rightarrow> d)"

definition return_time :: "agent \<Rightarrow> pick_unit \<Rightarrow> pick_unit \<Rightarrow> int" where
  "return_time ag ui uj =
     (let prod_i_loc = pickup_location (u_product_data ui);
          prod_j_loc = pickup_location (u_product_data uj);
          dist_to_prep = \<bar>fst prod_i_loc - fst PREPARATION_POINT\<bar> + \<bar>snd prod_i_loc - snd PREPARATION_POINT\<bar>;
          time_to_prep = travel_time dist_to_prep (float_mul (speed ag) 60);
          dist_from_prep = \<bar>fst PREPARATION_POINT - fst prod_j_loc\<bar> + \<bar>snd PREPARATION_POINT - snd prod_j_loc\<bar>;
          time_from_prep = travel_time dist_from_prep (float_mul (speed ag) 60)
      in time_to_prep + DEPOT_TIME + time_from_prep)"

text \<open>The block "C1b : Coherence temporelle", for one agent and one ordered pair.\<close>

definition timing_pair ::
  "agent list \<Rightarrow> pick_unit list \<Rightarrow> distances \<Rightarrow> valuation \<Rightarrow> nat \<Rightarrow> nat \<Rightarrow> nat \<Rightarrow> bool" where
  "timing_pair agents units dd V a i j \<longleftrightarrow>
     (v_both V i j a \<longrightarrow> of_bool (v_assign V i a) + of_bool (v_assign V j a) = (2::int))
   \<and> (\<not> v_both V i j a \<longrightarrow> of_bool (v_assign V i a) + of_bool (v_assign V j a) < (2::int))
   \<and> (v_both V i j a \<longrightarrow> of_bool (v_before V i j a) + of_bool (v_before V j i a) = (1::int))
   \<and> (v_both V i j a \<and> v_same_trip V i j a \<longrightarrow> v_trip V i a = v_trip V j a)
   \<and> (v_both V i j a \<and> \<not> v_same_trip V i j a \<longrightarrow> v_trip V i a \<noteq> v_trip V j a)
   \<and> (v_before V i j a \<and> v_same_trip V i j a \<longrightarrow>
        v_visit V j \<ge> v_visit V i
          + travel_time (distance_cases dd (u_product_id (units ! i)) (u_product_id (units ! j)))
                        (float_mul (speed (agents ! a)) 60)
          + PICKING_TIME)
   \<and> (v_before V i j a \<and> \<not> v_same_trip V i j a \<longrightarrow>
        v_visit V j \<ge> v_visit V i + return_time (agents ! a) (units ! i) (units ! j) + PICKING_TIME)"

definition timing_constraints ::
  "agent list \<Rightarrow> pick_unit list \<Rightarrow> distances \<Rightarrow> string list \<Rightarrow> valuation \<Rightarrow> bool" where
  "timing_constraints agents units dd zones V \<longleftrightarrow>
     (\<forall>a \<in> set [0..<length agents]. \<forall>i \<in> set [0..<length units]. \<forall>j \<in> set [0..<length units].
        i \<noteq> j \<and> is_var agents units zones i a \<and> is_var agents units zones j a \<longrightarrow>
        timing_pair agents units dd V a i j)"

text \<open>
  The division in that block raises when \<open>agent_speed_m_per_min\<close> is 0 and the block is
  reached.
\<close>

definition timing_raises :: "agent list \<Rightarrow> pick_unit list \<Rightarrow> string list \<Rightarrow> bool" where
  "timing_raises agents units zones \<longleftrightarrow>
     (\<exists>a \<in> set [0..<length agents]. \<exists>i \<in> set [0..<length units]. \<exists>j \<in> set [0..<length units].
        i \<noteq> j \<and> is_var agents units zones i a \<and> is_var agents units zones j a
        \<and> float_mul (speed (agents ! a)) 60 = 0)"

text \<open>The agents of unit \<open>i\<close> whose assignment is a variable, among the given indices.\<close>

definition var_agents :: "agent list \<Rightarrow> pick_unit list \<Rightarrow> string list \<Rightarrow> nat \<Rightarrow> nat list \<Rightarrow> nat list" where
  "var_agents agents units zones i idxs = filter (\<lambda>a. is_var agents units zones i a) idxs"

definition var_units :: "agent list \<Rightarrow> pick_unit list \<Rightarrow> string list \<Rightarrow> nat \<Rightarrow> nat list" where
  "var_units agents units zones a = filter (\<lambda>i. is_var agents units zones i a) [0..<length units]"

text \<open>C1: each product is assigned to exactly one agent.\<close>

definition unique_assignment :: "agent list \<Rightarrow> pick_unit list \<Rightarrow> string list \<Rightarrow> valuation \<Rightarrow> bool" where
  "unique_assignment agents units zones V \<longleftrightarrow>
     (\<forall>i \<in> set [0..<length units].
        let valid = var_agents agents units zones i [0..<length agents] in
        valid \<noteq> [] \<longrightarrow> (\<Sum>a\<leftarrow>valid. of_bool (v_assign V i a)) = (1::int))"

definition robot_indices :: "agent list \<Rightarrow> nat list" where
  "robot_indices agents = filter (\<lambda>a. atype (agents ! a) = ''robot'') [0..<length agents]"

text \<open>C1b: products of the robot zone go to a robot.\<close>

definition robot_zone_constraints :: "agent list \<Rightarrow> pick_unit list \<Rightarrow> string list \<Rightarrow> valuation \<Rightarrow> bool" where
  "robot_zone_constraints agents units zones V \<longleftrightarrow>
     (\<forall>i \<in> set [0..<length units].
        location (u_product_data (units ! i)) \<in> set zones \<longrightarrow>
        (let robot_assignments = var_agents agents units zones i (robot_indices agents) in
         robot_assignments \<noteq> [] \<longrightarrow> (\<Sum>a\<leftarrow>robot_assignments. of_bool (v_assign V i a)) = (1::int)))"

text \<open>
  C2 and C3: weight and volume capacity of each trip. The weights are
  \<open>int(weight * 1000)\<close>, the product being the one of floats.
\<close>

definition in_trip_reified :: "valuation \<Rightarrow> (nat \<Rightarrow> nat \<Rightarrow> int \<Rightarrow> bool) \<Rightarrow> nat \<Rightarrow> nat \<Rightarrow> int \<Rightarrow> bool" where
  "in_trip_reified V in_this_trip i a trip \<longleftrightarrow>
     (v_assign V i a \<and> in_this_trip i a trip \<longrightarrow> v_trip V i a = trip)
   \<and> (v_assign V i a \<and> \<not> in_this_trip i a trip \<longrightarrow> v_trip V i a \<noteq> trip)
   \<and> (\<not> v_assign V i a \<longrightarrow> of_bool (in_this_trip i a trip) = (0::int))"

definition weight_capacity :: "agent list \<Rightarrow> pick_unit list \<Rightarrow> string list \<Rightarrow> valuation \<Rightarrow> bool" where
  "weight_capacity agents units zones V \<longleftrightarrow>
     (\<forall>a \<in> set [0..<length agents]. \<forall>trip \<in> set [1..MAX_TRIPS].
        (\<forall>i \<in> set (var_units agents units zones a). in_trip_reified V (v_in_trip_w V) i a trip)
        \<and> (var_units agents units zones a \<noteq> [] \<longrightarrow>
             (\<Sum>i\<leftarrow>var_units agents units zones a.
                py_int (float_mul (weight (u_product_data (units ! i))) 1000)
                  * of_bool (v_in_trip_w V i a trip))
             \<le> py_int (float_mul (capacity_weight (agents ! a)) 1000)))"

definition volume_capacity :: "agent list \<Rightarrow> pick_unit list \<Rightarrow> string list \<Rightarrow> valuation \<Rightarrow> bool" where
  "volume_capacity agents units zones V \<longleftrightarrow>
     (\<forall>a \<in> set [0..<length agents]. \<forall>trip \<in> set [1..MAX_TRIPS].
        (\<forall>i \<in> set (var_units agents units zones a). in_trip_reified V (v_in_trip_v V) i a trip)
        \<and> (var_units agents units zones a \<noteq> [] \<longrightarrow>
             (\<Sum>i\<leftarrow>var_units agents units zones a.
                py_int (volume (u_product_data (units ! i))) * of_bool (v_in_trip_v V i a trip))
             \<le> capacity_volume (agents ! a)))"

text \<open>C4: incompatible products are not in the same trip.\<close>

definition incompatibility :: "agent list \<Rightarrow> pick_unit list \<Rightarrow> string list \<Rightarrow> valuation \<Rightarrow> bool" where
  "incompatibility agents units zones V \<longleftrightarrow>
     (\<forall>i \<in> set [0..<length units]. \<forall>j \<in> set [i + 1..<length units].
        pid (u_product_data (units ! j)) \<in> set (incompatible_with (u_product_data (units ! i))) \<longrightarrow>
        (\<forall>a \<in> set [0..<length agents].
           is_var agents units zones i a \<and> is_var agents units zones j a \<longrightarrow>
             (v_incomp_both V i j a \<longrightarrow> of_bool (v_assign V i a) + of_bool (v_assign V j a) = (2::int))
           \<and> (\<not> v_incomp_both V i j a \<longrightarrow> of_bool (v_assign V i a) + of_bool (v_assign V j a) < (2::int))
           \<and> (v_incomp_both V i j a \<and> v_incomp_same V i j a \<longrightarrow> v_trip V i a = v_trip V j a)
           \<and> (v_incomp_both V i j a \<and> \<not> v_incomp_same V i j a \<longrightarrow> v_trip V i a \<noteq> v_trip V j a)
           \<and> (v_incomp_both V i j a \<longrightarrow> of_bool (v_incomp_same V i j a) = (0::int))))"

text \<open>C5 and C5b: deadlines, and express before standard on one agent.\<close>

definition deadlines :: "pick_unit list \<Rightarrow> valuation \<Rightarrow> bool" where
  "deadlines units V \<longleftrightarrow>
     (\<forall>i \<in> set [0..<length units]. v_visit V i \<le> time_to_minutes (u_deadline (units ! i)))"

definition priorities :: "agent list \<Rightarrow> pick_unit list \<Rightarrow> string list \<Rightarrow> valuation \<Rightarrow> bool" where
  "priorities agents units zones V \<longleftrightarrow>
     (\<forall>a \<in> set [0..<length agents]. \<forall>i \<in> set [0..<length units]. \<forall>j \<in> set [0..<length units].
        i \<noteq> j \<and> u_priority (units ! i) = ''express'' \<and> u_priority (units ! j) = ''standard''
        \<and> is_var agents units zones i a \<and> is_var agents units zones j a \<longrightarrow>
          (v_prio_both V i j a \<longrightarrow> of_bool (v_assign V i a) + of_bool (v_assign V j a) = (2::int))
        \<and> (\<not> v_prio_both V i j a \<longrightarrow> of_bool (v_assign V i a) + of_bool (v_assign V j a) < (2::int))
        \<and> (v_prio_both V i j a \<longrightarrow> v_visit V i < v_visit V j))"

text \<open>C6: agents used, and a cart in use is paired with one human.\<close>

definition cart_indices :: "agent list \<Rightarrow> nat list" where
  "cart_indices agents = filter (\<lambda>a. atype (agents ! a) = ''cart'') [0..<length agents]"

definition human_indices :: "agent list \<Rightarrow> nat list" where
  "human_indices agents = filter (\<lambda>a. atype (agents ! a) = ''human'') [0..<length agents]"

definition agents_used :: "agent list \<Rightarrow> pick_unit list \<Rightarrow> string list \<Rightarrow> valuation \<Rightarrow> bool" where
  "agents_used agents units zones V \<longleftrightarrow>
     (\<forall>a \<in> set [0..<length agents].
        var_units agents units zones a \<noteq> [] \<longrightarrow>
          (v_agent_used V a \<longrightarrow>
             (\<Sum>i\<leftarrow>var_units agents units zones a. of_bool (v_assign V i a)) \<ge> (1::int))
        \<and> (\<not> v_agent_used V a \<longrightarrow>
             (\<Sum>i\<leftarrow>var_units agents units zones a. of_bool (v_assign V i a)) = (0::int)))"

definition cart_pairing :: "agent list \<Rightarrow> valuation \<Rightarrow> bool" where
  "cart_pairing agents V \<longleftrightarrow>
     (\<forall>c \<in> set (cart_indices agents).
          (v_agent_used V c \<longrightarrow>
             (\<Sum>h\<leftarrow>human_indices agents. of_bool (v_human_to_cart V h c)) = (1::int))
        \<and> (\<not> v_agent_used V c \<longrightarrow>
             (\<Sum>h\<leftarrow>human_indices agents. of_bool (v_human_to_cart V h c)) = (0::int)))
   \<and> (\<forall>h \<in> set (human_indices agents).
          (\<Sum>c\<leftarrow>cart_indices agents. of_bool (v_human_to_cart V h c)) \<le> (1::int))"

text \<open>The objective's auxiliary variables.\<close>

definition end_times :: "agent list \<Rightarrow> pick_unit list \<Rightarrow> string list \<Rightarrow> valuation \<Rightarrow> bool" where
  "end_times agents units zones V \<longleftrightarrow>
     (\<forall>a \<in> set [0..<length agents].
        (\<forall>i \<in> set (var_units agents units zones a).
             (v_assign V i a \<longrightarrow> v_time_contrib V i a = v_visit V i)
           \<and> (\<not> v_assign V i a \<longrightarrow> v_time_contrib V i a = TIME_START))
        \<and> (if var_units agents units zones a \<noteq> []
            then (\<exists>i \<in> set (var_units agents units zones a). v_last_time V a = v_time_contrib V i a)
               \<and> (\<forall>i \<in> set (var_units agents units zones a). v_time_contrib V i a \<le> v_last_time V a)
            else v_last_time V a = TIME_START)
        \<and> v_max_end V \<ge> v_last_time V a)"

text \<open>The bounds given to \<open>NewIntVar\<close>.\<close>

definition domains :: "agent list \<Rightarrow> pick_unit list \<Rightarrow> string list \<Rightarrow> valuation \<Rightarrow> bool" where
  "domains agents units zones V \<longleftrightarrow>
     (\<forall>i \<in> set [0..<length units]. TIME_START \<le> v_visit V i \<and> v_visit V i \<le> TIME_END)
   \<and> (\<forall>a \<in> set [0..<length agents].
        TIME_START \<le> v_last_time V a \<and> v_last_time V a \<le> TIME_END
        \<and> (\<forall>i \<in> set (var_units agents units zones a).
              1 \<le> v_trip V i a \<and> v_trip V i a \<le> MAX_TRIPS
              \<and> TIME_START \<le> v_time_contrib V i a \<and> v_time_contrib V i a \<le> TIME_END))
   \<and> TIME_START \<le> v_max_end V \<and> v_max_end V \<le> TIME_END"

definition cp_model :: "agent list \<Rightarrow> pick_unit list \<Rightarrow> distances \<Rightarrow> string list \<Rightarrow> valuation \<Rightarrow> bool" where
  "cp_model agents units dd zones V \<longleftrightarrow>
     domains agents units zones V
   \<and> timing_constraints agents units dd zones V
   \<and> unique_assignment agents units zones V
   \<and> robot_zone_constraints agents units zones V
   \<and> weight_capacity agents units zones V
   \<and> volume_capacity agents units zones V
   \<and> incompatibility agents units zones V
   \<and> deadlines units V
   \<and> priorities agents units zones V
   \<and> agents_used agents units zones V
   \<and> cart_pairing agents V
   \<and> end_times agents units zones V"

subsection \<open>The solver's answer and the returned plan\<close>

datatype cp_status = UNKNOWN | MODEL_INVALID | FEASIBLE | INFEASIBLE | OPTIMAL

text \<open>
  What \<open>solver.Solve(model)\<close> gives back: the status, and the values \<open>solver.Value\<close>
  reads. The solver is sound when a status \<open>OPTIMAL\<close> or \<open>FEASIBLE\<close> comes with values
  that satisfy every posted constraint.
\<close>

type_synonym solver_answer = "cp_status \<times> valuation"

definition solver_sound ::
  "agent list \<Rightarrow> pick_unit list \<Rightarrow> distances \<Rightarrow> string list \<Rightarrow> solver_answer \<Rightarrow> bool" where
  "solver_sound agents units dd zones ans \<longleftrightarrow>
     (fst ans = OPTIMAL \<or> fst ans = FEASIBLE \<longrightarrow> cp_model agents units dd zones (snd ans))"

text \<open>The same for the constraints of one block of the function.\<close>

definition answer_satisfies :: "(valuation \<Rightarrow> bool) \<Rightarrow> solver_answer \<Rightarrow> bool" where
  "answer_satisfies constraints ans \<longleftrightarrow>
     (fst ans = OPTIMAL \<or> fst ans = FEASIBLE \<longrightarrow> constraints (snd ans))"

record route =
  r_agent :: agent
  r_products :: "pick list"
  r_total_weight :: rat
  r_total_volume :: rat

text \<open>
  The dictionary \<open>optimize_routes\<close> returns. A key the dictionary does not have is
  \<open>None\<close>; a Python dictionary is the list of its items in insertion order.
\<close>

record opt_result =
  status :: string
  agents_routes :: "(string \<times> route) list option"
  human_cart_assignments :: "(string \<times> string) list option"

text \<open>\<open>d[k] = v\<close> on a dictionary: replace the value of a present key, else append.\<close>

fun dict_set :: "('k \<times> 'v) list \<Rightarrow> 'k \<Rightarrow> 'v \<Rightarrow> ('k \<times> 'v) list" where
  "dict_set [] k v = [(k, v)]"
| "dict_set ((k', v') # d) k v = (if k' = k then (k, v) # d else (k', v') # dict_set d k v)"

definition make_pick :: "pick_unit list \<Rightarrow> valuation \<Rightarrow> nat \<Rightarrow> nat \<Rightarrow> pick" where
  "make_pick units V a i =
     \<lparr>u_product_id = u_product_id (units ! i), u_order_id = u_order_id (units ! i),
      u_product_data = u_product_data (units ! i), u_deadline = u_deadline (units ! i),
      u_priority = u_priority (units ! i),
      visit_time = v_visit V i, trip_number = v_trip V i a\<rparr>"

definition assigned_units :: "agent list \<Rightarrow> pick_unit list \<Rightarrow> string list \<Rightarrow> valuation \<Rightarrow> nat \<Rightarrow> nat list" where
  "assigned_units agents units zones V a =
     filter (\<lambda>i. is_var agents units zones i a \<and> v_assign V i a) [0..<length units]"

text \<open>\<open>assigned_products\<close> after \<open>sort(key=lambda p: (p['trip_number'], p['visit_time']))\<close>.\<close>

definition assigned_products :: "agent list \<Rightarrow> pick_unit list \<Rightarrow> string list \<Rightarrow> valuation \<Rightarrow> nat \<Rightarrow> pick list" where
  "assigned_products agents units zones V a =
     sort_key (\<lambda>p. (trip_number p, visit_time p))
       (map (make_pick units V a) (assigned_units agents units zones V a))"

text \<open>
  \<open>sum(...)\<close> over floats, from the left and starting at 0. (CPython 3.12 and later
  compensate the rounding errors of such a sum; the two totals are read by no statement
  of this theory.)
\<close>

definition py_sum :: "rat list \<Rightarrow> rat" where
  "py_sum xs = foldl float_add 0 xs"

definition route_of :: "agent list \<Rightarrow> pick_unit list \<Rightarrow> string list \<Rightarrow> valuation \<Rightarrow> nat \<Rightarrow> route" where
  "route_of agents units zones V a =
     (let ps = assigned_products agents units zones V a in
      \<lparr>r_agent = agents ! a, r_products = ps,
       r_total_weight = py_sum (map (\<lambda>p. weight (u_product_data p)) ps),
       r_total_volume = py_sum (map (\<lambda>p. volume (u_product_data p)) ps)\<rparr>)"

definition extract_routes ::
  "agent list \<Rightarrow> pick_unit list \<Rightarrow> string list \<Rightarrow> valuation \<Rightarrow> (string \<times> route) list" where
  "extract_routes agents units zones V =
     fold (\<lambda>a routes.
             if assigned_units agents units zones V a \<noteq> []
             then dict_set routes (aid (agents ! a)) (route_of agents units zones V a)
             else routes)
          [0..<length agents] []"

definition extract_pairing :: "agent list \<Rightarrow> valuation \<Rightarrow> (string \<times> string) list" where
  "extract_pairing agents V =
     fold (\<lambda>c res.
             fold (\<lambda>h res'. if v_human_to_cart V h c
                             then dict_set res' (aid (agents ! c)) (aid (agents ! h)) else res')
                  (human_indices agents) res)
          (cart_indices agents) []"

definition optimize_routes ::
  "order list \<Rightarrow> product list \<Rightarrow> agent list \<Rightarrow> distances \<Rightarrow> string list \<Rightarrow> solver_answer
   \<Rightarrow> py_error + opt_result" where
  "optimize_routes available_orders products agents dd zones ans =
     (case products_to_pick available_orders products of
        Inl e \<Rightarrow> Inl e
      | Inr units \<Rightarrow>
          if timing_raises agents units zones then Inl ZeroDivisionError
          else if fst ans = OPTIMAL \<or> fst ans = FEASIBLE then
            Inr \<lparr>status = ''success'',
                 agents_routes = Some (extract_routes agents units zones (snd ans)),
                 human_cart_assignments = Some (extract_pairing agents (snd ans))\<rparr>
          else Inr \<lparr>status = ''no_solution'', agents_routes = None, human_cart_assignments = None\<rparr>)"

subsection \<open>A small instance\<close>

text \<open>
  One robot and one human; three products, two of them stored in the robot zone \<open>A\<close>, one
  of these food; one order of one unit each. The valuation sends the first unit to the
  robot and the other two to the human, in one trip.
\<close>

definition ex_robot :: agent where
  "ex_robot = \<lparr>aid = ''R1'', atype = ''robot'', capacity_weight = 20, capacity_volume = 30,
                speed = 2, no_fragile = True, max_item_weight = Some 10\<rparr>"

definition ex_human :: agent where
  "ex_human = \<lparr>aid = ''H1'', atype = ''human'', capacity_weight = 35, capacity_volume = 50,
                speed = 3 / 2, no_fragile = False, max_item_weight = None\<rparr>"

definition ex_agents :: "agent list" where
  "ex_agents = [ex_robot, ex_human]"

definition ex_p1 :: product where
  "ex_p1 = \<lparr>pid = ''P1'', category = ''electronics'', weight = 1, volume = 2, fragile = False,
             location = ''A'', pickup_location = (3, 3), incompatible_with = []\<rparr>"

definition ex_p2 :: product where
  "ex_p2 = \<lparr>pid = ''P2'', category = ''food'', weight = 1 / 2, volume = 1, fragile = False,
             location = ''A'', pickup_location = (4, 3), incompatible_with = []\<rparr>"

definition ex_p3 :: product where
  "ex_p3 = \<lparr>pid = ''P3'', category = ''book'', weight = 1, volume = 1, fragile = False,
             location = ''B'', pickup_location = (5, 3), incompatible_with = []\<rparr>"

definition ex_products :: "product list" where
  "ex_products = [ex_p1, ex_p2, ex_p3]"

definition ex_zones :: "string list" where
  "ex_zones = [''A'']"

definition ex_orders :: "order list" where
  "ex_orders = [\<lparr>oid = ''O1'', priority = ''standard'', deadline = (12, 0),
                  items = [\<lparr>product_id = ''P1'', quantity = 1\<rparr>,
                           \<lparr>product_id = ''P2'', quantity = 1\<rparr>,
                           \<lparr>product_id = ''P3'', quantity = 1\<rparr>]\<rparr>]"

definition ex_dd :: distances where
  "ex_dd = [(''P2'', ''P3'') \<mapsto> 1, (''P3'', ''P2'') \<mapsto> 1]"

definition ex_unit :: "product \<Rightarrow> pick_unit" where
  "ex_unit p = \<lparr>u_product_id = pid p, u_order_id = ''O1'', u_product_data = p,
                 u_deadline = (12, 0), u_priority = ''standard''\<rparr>"

definition ex_units :: "pick_unit list" where
  "ex_units = [ex_unit ex_p1, ex_unit ex_p2, ex_unit ex_p3]"

definition ex_V :: valuation where
  "ex_V = \<lparr>v_assign = (\<lambda>i a. (i = 0 \<and> a = 0) \<or> (i = 1 \<and> a = 1) \<or> (i = 2 \<and> a = 1)),
           v_trip = (\<lambda>i a. 1),
           v_visit = (\<lambda>i. if i = 0 then 4 else if i = 1 then 3 else 5),
           v_before = (\<lambda>i j a. i = 1 \<and> j = 2 \<and> a = 1),
           v_both = (\<lambda>i j a. a = 1 \<and> ((i = 1 \<and> j = 2) \<or> (i = 2 \<and> j = 1))),
           v_same_trip = (\<lambda>i j a. True),
           v_in_trip_w = (\<lambda>i a t. t = 1 \<and> ((i = 0 \<and> a = 0) \<or> (i = 1 \<and> a = 1) \<or> (i = 2 \<and> a = 1))),
           v_in_trip_v = (\<lambda>i a t. t = 1 \<and> ((i = 0 \<and> a = 0) \<or> (i = 1 \<and> a = 1) \<or> (i = 2 \<and> a = 1))),
           v_incomp_both = (\<lambda>i j a. False),
           v_incomp_same = (\<lambda>i j a. False),
           v_prio_both = (\<lambda>i j a. False),
           v_agent_used = (\<lambda>a. True),
           v_human_to_cart = (\<lambda>h c. False),
           v_time_contrib = (\<lambda>i a. if i = 0 \<and> a = 0 then 4 else if i = 1 \<and> a = 1 then 3
                                     else if i = 2 \<and> a = 1 then 5 else 0),
           v_last_time = (\<lambda>a. if a = 0 then 4 else 5),
           v_max_end = 5\<rparr>"

definition ex_pick :: "product \<Rightarrow> int \<Rightarrow> pick" where
  "ex_pick p t = \<lparr>u_product_id = pid p, u_order_id = ''O1'', u_product_data = p,
                   u_deadline = (12, 0), u_priority = ''standard'',
                   visit_time = t, trip_number = 1\<rparr>"

definition ex_route_robot :: route where
  "ex_route_robot = \<lparr>r_agent = ex_robot, r_products = [ex_pick ex_p1 4],
                      r_total_weight = 1, r_total_volume = 2\<rparr>"

definition ex_route_human :: route where
  "ex_route_human = \<lparr>r_agent = ex_human, r_products = [ex_pick ex_p2 3, ex_pick ex_p3 5],
                      r_total_weight = 3 / 2, r_total_volume = 2\<rparr>"

definition ex_result :: opt_result where
  "ex_result = \<lparr>status = ''success'',
                 agents_routes = Some [(''R1'', ex_route_robot), (''H1'', ex_route_human)],
                 human_cart_assignments = Some []\<rparr>"


subsection \<open>A slow agent\<close>

text \<open>
  One human whose speed is the float of 0.31, and two books 93 cells apart, ordered
  together. The valuation visits the first at minute 0 and the second at minute 16, in
  one trip.
\<close>

definition far_human :: agent where
  "far_human = \<lparr>aid = ''H9'', atype = ''human'', capacity_weight = 35, capacity_volume = 50,
                 speed = double_round (31 / 100), no_fragile = False, max_item_weight = None\<rparr>"

definition far_product :: "string \<Rightarrow> pos \<Rightarrow> product" where
  "far_product i cell = \<lparr>pid = i, category = ''book'', weight = 1, volume = 1, fragile = False,
                          location = ''B'', pickup_location = cell, incompatible_with = []\<rparr>"

definition far_products :: "product list" where
  "far_products = [far_product ''F1'' (1, 1), far_product ''F2'' (94, 1)]"

definition far_orders :: "order list" where
  "far_orders = [\<lparr>oid = ''O9'', priority = ''standard'', deadline = (17, 0),
                   items = [\<lparr>product_id = ''F1'', quantity = 1\<rparr>,
                            \<lparr>product_id = ''F2'', quantity = 1\<rparr>]\<rparr>]"

definition far_dd :: distances where
  "far_dd = [(''F1'', ''F2'') \<mapsto> 93, (''F2'', ''F1'') \<mapsto> 93]"

definition far_unit :: "string \<Rightarrow> pos \<Rightarrow> pick_unit" where
  "far_unit i cell = \<lparr>u_product_id = i, u_order_id = ''O9'', u_product_data = far_product i cell,
                       u_deadline = (17, 0), u_priority = ''standard''\<rparr>"

definition far_units :: "pick_unit list" where
  "far_units = [far_unit ''F1'' (1, 1), far_unit ''F2'' (94, 1)]"

definition far_V :: valuation where
  "far_V = \<lparr>v_assign = (\<lambda>i a. True),
            v_trip = (\<lambda>i a. 1),
            v_visit = (\<lambda>i. if i = 0 then 0 else 16),
            v_before = (\<lambda>i j a. i = 0 \<and> j = 1),
            v_both = (\<lambda>i j a. True),
            v_same_trip = (\<lambda>i j a. True),
            v_in_trip_w = (\<lambda>i a t. t = 1),
            v_in_trip_v = (\<lambda>i a t. t = 1),
            v_incomp_both = (\<lambda>i j a. False),
            v_incomp_same = (\<lambda>i j a. False),
            v_prio_both = (\<lambda>i j a. False),
            v_agent_used = (\<lambda>a. True),
            v_human_to_cart = (\<lambda>h c. False),
            v_time_contrib = (\<lambda>i a. if i = 0 then 0 else 16),
            v_last_time = (\<lambda>a. 16),
            v_max_end = 16\<rparr>"

definition far_pick :: "string \<Rightarrow> pos \<Rightarrow> int \<Rightarrow> pick" where
  "far_pick i cell t = \<lparr>u_product_id = i, u_order_id = ''O9'', u_product_data = far_product i cell,
                         u_deadline = (17, 0), u_priority = ''standard'',
                         visit_time = t, trip_number = 1\<rparr>"

definition far_route :: route where
  "far_route = \<lparr>r_agent = far_human,
                 r_products = [far_pick ''F1'' (1, 1) 0, far_pick ''F2'' (94, 1) 16],
                 r_total_weight = 2, r_total_volume = 2\<rparr>"

definition far_result :: opt_result where
  "far_result = \<lparr>status = ''success'', agents_routes = Some [(''H9'', far_route)],
                  human_cart_assignments = Some []\<rparr>"

section \<open>distances.py\<close>

text \<open>
  A computation that calls \<open>astar_path\<close> has three outcomes: it does not return
  (\<open>None\<close>), it raises (\<open>Some (Inl e)\<close>) or it returns a value (\<open>Some (Inr x)\<close>).
\<close>

type_synonym 'a outcome = "(py_error + 'a) option"

definition returns :: "'a \<Rightarrow> 'a outcome" where
  "returns x = Some (Inr x)"

definition raises :: "py_error \<Rightarrow> 'a outcome" where
  "raises e = Some (Inl e)"

definition and_then :: "'a outcome \<Rightarrow> ('a \<Rightarrow> 'b outcome) \<Rightarrow> 'b outcome" where
  "and_then m f = (case m of None \<Rightarrow> None | Some (Inl e) \<Rightarrow> Some (Inl e) | Some (Inr x) \<Rightarrow> f x)"

text \<open>A \<open>for\<close> loop whose body may raise, over the state it updates.\<close>

fun for_each :: "'a list \<Rightarrow> ('a \<Rightarrow> 's \<Rightarrow> 's outcome) \<Rightarrow> 's \<Rightarrow> 's outcome" where
  "for_each [] body s = returns s"
| "for_each (x # xs) body s = and_then (body x s) (for_each xs body)"

record distance_data =
  dd_entry :: pos
  dd_locations :: "(string \<times> pos) list"
  dd_distances :: "((string \<times> string) \<times> int) list"
  dd_grid :: "grid option"

text \<open>\<open>astar_distance\<close> with a grid, \<open>manhattan_distance\<close> without.\<close>

definition point_distance :: "grid option \<Rightarrow> pos \<Rightarrow> pos \<Rightarrow> int outcome" where
  "point_distance navigation_grid from_pos to_pos =
     (case navigation_grid of
        Some g \<Rightarrow> calculate_distance from_pos to_pos g
      | None \<Rightarrow> returns (manhattan_distance from_pos to_pos))"

definition build_locations :: "product list \<Rightarrow> pos \<Rightarrow> (string \<times> pos) list" where
  "build_locations products entry_point =
     fold (\<lambda>p locs. dict_set locs (pid p) (pickup_location p)) products [(''entry'', entry_point)]"

definition calculate_distance_matrix :: "product list \<Rightarrow> pos \<Rightarrow> grid option \<Rightarrow> distance_data outcome" where
  "calculate_distance_matrix products entry_point navigation_grid =
     (let locations = build_locations products entry_point in
      and_then
        (for_each locations
           (\<lambda>from_item. for_each locations
              (\<lambda>to_item distances.
                 and_then (point_distance navigation_grid (snd from_item) (snd to_item))
                   (\<lambda>dist. returns (dict_set distances (fst from_item, fst to_item) dist))))
           [])
        (\<lambda>distances. returns \<lparr>dd_entry = entry_point, dd_locations = locations,
                               dd_distances = distances, dd_grid = navigation_grid\<rparr>))"

section \<open>collision\_checker.py\<close>

text \<open>The two \<open>while\<close> loops of \<open>calculate_path_manhattan\<close>: first along x, then along y.\<close>

function walk_x :: "pos \<Rightarrow> pos \<Rightarrow> pos list \<Rightarrow> pos \<times> pos list" where
  "walk_x current end path =
     (if fst current \<noteq> fst end then
        (let current' = (if fst current < fst end then (fst current + 1, snd current)
                         else (fst current - 1, snd current))
         in walk_x current' end (path @ [current']))
      else (current, path))"
  by pat_completeness auto
termination
  by (relation "measure (\<lambda>(current, end, path). nat \<bar>fst end - fst current\<bar>)") auto

function walk_y :: "pos \<Rightarrow> pos \<Rightarrow> pos list \<Rightarrow> pos \<times> pos list" where
  "walk_y current end path =
     (if snd current \<noteq> snd end then
        (let current' = (if snd current < snd end then (fst current, snd current + 1)
                         else (fst current, snd current - 1))
         in walk_y current' end (path @ [current']))
      else (current, path))"
  by pat_completeness auto
termination
  by (relation "measure (\<lambda>(current, end, path). nat \<bar>snd end - snd current\<bar>)") auto

definition calculate_path_manhattan :: "pos \<Rightarrow> pos \<Rightarrow> pos list" where
  "calculate_path_manhattan start end =
     (let cp = walk_x start end [] in snd (walk_y (fst cp) end (snd cp)))"

definition calculate_path :: "pos \<Rightarrow> pos \<Rightarrow> grid option \<Rightarrow> pos list outcome" where
  "calculate_path start end navigation_grid =
     (case navigation_grid of
        Some g \<Rightarrow>
          and_then (astar_path start end g)
            (\<lambda>path. case path of
                       None \<Rightarrow> returns (calculate_path_manhattan start end)
                     | Some p \<Rightarrow> returns p)
      | None \<Rightarrow> returns (calculate_path_manhattan start end))"

text \<open>
  A trajectory is the dictionary from minutes to cells. The stamping loops write
  \<open>trajectory[current_time]\<close> and advance \<open>current_time\<close>; the one towards a product
  stops after the first stamp of the target.
\<close>

type_synonym trajectory = "(int \<times> pos) list"

fun stamp_until :: "pos \<Rightarrow> pos list \<Rightarrow> trajectory \<Rightarrow> int \<Rightarrow> trajectory \<times> int" where
  "stamp_until target [] tr t = (tr, t)"
| "stamp_until target (step_pos # rest) tr t =
     (if step_pos = target then (dict_set tr t step_pos, t + 1)
      else stamp_until target rest (dict_set tr t step_pos) (t + 1))"

fun stamp_all :: "pos list \<Rightarrow> trajectory \<Rightarrow> int \<Rightarrow> trajectory \<times> int" where
  "stamp_all [] tr t = (tr, t)"
| "stamp_all (step_pos # rest) tr t = stamp_all rest (dict_set tr t step_pos) (t + 1)"

text \<open>\<open>while current_time <= visit_time\<close>: wait on the product.\<close>

function dwell :: "pos \<Rightarrow> int \<Rightarrow> trajectory \<Rightarrow> int \<Rightarrow> trajectory \<times> int" where
  "dwell target visit tr t =
     (if t \<le> visit then dwell target visit (dict_set tr t target) (t + 1) else (tr, t))"
  by pat_completeness auto
termination
  by (relation "measure (\<lambda>(target, visit, tr, t). nat (visit + 1 - t))") auto

record walk_state =
  ws_trajectory :: trajectory
  ws_depot_positions :: "pos list"
  ws_current_pos :: pos
  ws_current_time :: int

text \<open>
  The return to the depot: the path from the current cell, two minutes on the depot,
  the depot recorded.
\<close>

definition to_depot :: "grid option \<Rightarrow> pos \<Rightarrow> walk_state \<Rightarrow> walk_state outcome" where
  "to_depot navigation_grid assigned_depot ws =
     and_then (calculate_path (ws_current_pos ws) assigned_depot navigation_grid)
       (\<lambda>depot_path.
          let s1 = stamp_all depot_path (ws_trajectory ws) (ws_current_time ws);
              s2 = stamp_all [assigned_depot, assigned_depot] (fst s1) (snd s1)
          in returns \<lparr>ws_trajectory = fst s2,
                      ws_depot_positions = ws_depot_positions ws @ [assigned_depot],
                      ws_current_pos = assigned_depot, ws_current_time = snd s2\<rparr>)"

text \<open>The walk to a product and the wait until its visit time.\<close>

definition to_product :: "grid option \<Rightarrow> int \<Rightarrow> pick \<Rightarrow> walk_state \<Rightarrow> walk_state outcome" where
  "to_product navigation_grid start_delay product_item ws =
     (let target_pos = pickup_location (u_product_data product_item);
          visit = visit_time product_item + start_delay
      in and_then (calculate_path (ws_current_pos ws) target_pos navigation_grid)
           (\<lambda>path.
              let s1 = stamp_until target_pos path (ws_trajectory ws) (ws_current_time ws);
                  s2 = dwell target_pos visit (fst s1) (snd s1)
              in returns (ws\<lparr>ws_trajectory := fst s2, ws_current_pos := target_pos,
                             ws_current_time := snd s2\<rparr>)))"

text \<open>The way back to the entry point after the last depot, and the final stamp.\<close>

definition to_entry :: "grid option \<Rightarrow> pos \<Rightarrow> walk_state \<Rightarrow> walk_state outcome" where
  "to_entry navigation_grid entry_point ws =
     and_then (calculate_path (ws_current_pos ws) entry_point navigation_grid)
       (\<lambda>entry_path.
          let s1 = stamp_all entry_path (ws_trajectory ws) (ws_current_time ws)
          in returns (ws\<lparr>ws_trajectory := dict_set (fst s1) (snd s1) entry_point,
                         ws_current_time := snd s1\<rparr>))"

text \<open>The loop \<open>for i, product_item in enumerate(products_route)\<close>.\<close>

fun route_loop :: "grid option \<Rightarrow> pos \<Rightarrow> pos \<Rightarrow> int \<Rightarrow> pick list \<Rightarrow> walk_state \<Rightarrow> walk_state outcome" where
  "route_loop navigation_grid entry_point assigned_depot start_delay [] ws = returns ws"
| "route_loop navigation_grid entry_point assigned_depot start_delay (product_item # rest) ws =
     (case to_product navigation_grid start_delay product_item ws of
        None \<Rightarrow> None
      | Some (Inl e) \<Rightarrow> Some (Inl e)
      | Some (Inr ws1) \<Rightarrow>
          (case rest of
             next_item # _ \<Rightarrow>
               if trip_number next_item \<noteq> trip_number product_item then
                 (case to_depot navigation_grid assigned_depot ws1 of
                    None \<Rightarrow> None
                  | Some (Inl e) \<Rightarrow> Some (Inl e)
                  | Some (Inr ws2) \<Rightarrow>
                      route_loop navigation_grid entry_point assigned_depot start_delay rest ws2)
               else route_loop navigation_grid entry_point assigned_depot start_delay rest ws1
           | [] \<Rightarrow>
               and_then (to_depot navigation_grid assigned_depot ws1)
                 (to_entry navigation_grid entry_point)))"

text \<open>
  \<open>calculate_agent_trajectory\<close>. The agent and \<open>distance_data\<close> are read for a speed
  that nothing uses; they are not arguments here.
\<close>

definition calculate_agent_trajectory ::
  "pick list \<Rightarrow> pos \<Rightarrow> int \<Rightarrow> grid option \<Rightarrow> pos option \<Rightarrow> (trajectory \<times> pos list) outcome" where
  "calculate_agent_trajectory products_route entry_point start_delay navigation_grid assigned_depot =
     (let depot = (case assigned_depot of None \<Rightarrow> (6, 5) | Some d \<Rightarrow> d) in
      and_then
        (route_loop navigation_grid entry_point depot start_delay products_route
           \<lparr>ws_trajectory = [], ws_depot_positions = [], ws_current_pos = entry_point,
            ws_current_time = start_delay\<rparr>)
        (\<lambda>ws. returns (ws_trajectory ws, ws_depot_positions ws)))"

subsection \<open>Collisions\<close>

type_synonym collision = "string \<times> string \<times> int \<times> pos"

text \<open>\<open>d.get(k)\<close> on a dictionary held as the list of its items.\<close>

definition dict_get :: "('k \<times> 'v) list \<Rightarrow> 'k \<Rightarrow> 'v option" where
  "dict_get d k = map_of d k"

text \<open>
  The collisions of one pair of agents. Python does not fix the order in which the set
  \<open>common_times\<close> is iterated; here it is the order of the first trajectory's keys. The
  choice decides only the order of the collisions of one pair in the list: their number
  and their agents, hence \<open>collision_counts\<close> and the order of its keys, are the same
  for every order.
\<close>

definition pair_collisions :: "string \<times> trajectory \<Rightarrow> string \<times> trajectory \<Rightarrow> collision list" where
  "pair_collisions a1 a2 =
     concat (map (\<lambda>t. case (dict_get (snd a1) t, dict_get (snd a2) t) of
                         (Some pos1, Some pos2) \<Rightarrow> if pos1 = pos2 then [(fst a1, fst a2, t, pos1)] else []
                       | _ \<Rightarrow> [])
                 (filter (\<lambda>t. t \<in> set (map fst (snd a2))) (map fst (snd a1))))"

fun detect_collisions :: "(string \<times> trajectory) list \<Rightarrow> collision list" where
  "detect_collisions [] = []"
| "detect_collisions (a1 # rest) =
     concat (map (pair_collisions a1) rest) @ detect_collisions rest"

definition AVAILABLE_DEPOTS :: "pos list" where
  "AVAILABLE_DEPOTS = [(5, 4), (6, 4), (7, 4), (5, 5), (7, 5), (5, 6), (6, 6), (7, 6)]"

text \<open>The loop that gives each agent of the plan a depot cell; the state is
  \<open>(depot_assignments, used_depots)\<close>.\<close>

definition assign_depot :: "string \<Rightarrow> (string \<times> pos) list \<times> pos list \<Rightarrow> (string \<times> pos) list \<times> pos list" where
  "assign_depot agent_id st =
     (case filter (\<lambda>d. d \<notin> set (snd st)) AVAILABLE_DEPOTS of
        assigned # _ \<Rightarrow> (dict_set (fst st) agent_id assigned, snd st @ [assigned])
      | [] \<Rightarrow> (dict_set (fst st) agent_id (6, 5), snd st))"

definition assign_depots :: "string list \<Rightarrow> (string \<times> pos) list" where
  "assign_depots agent_ids = fst (fold assign_depot agent_ids ([], []))"

text \<open>\<open>routes_with_delays\<close>: for each agent its picks and its start delay.\<close>

type_synonym delayed_routes = "(string \<times> pick list \<times> int) list"

definition agents_dict :: "agent list \<Rightarrow> string \<rightharpoonup> agent" where
  "agents_dict agents = map_of (rev (map (\<lambda>a. (aid a, a)) agents))"

definition compute_all_trajectories ::
  "agent list \<Rightarrow> (string \<times> pos) list \<Rightarrow> pos \<Rightarrow> grid option \<Rightarrow> delayed_routes
   \<Rightarrow> ((string \<times> trajectory) list \<times> (string \<times> pos list) list) outcome" where
  "compute_all_trajectories agents depot_assignments entry_point navigation_grid routes_with_delays =
     for_each routes_with_delays
       (\<lambda>item acc.
          case agents_dict agents (fst item) of
            None \<Rightarrow> raises KeyError
          | Some agent \<Rightarrow>
              and_then
                (calculate_agent_trajectory (fst (snd item)) entry_point (snd (snd item))
                   navigation_grid
                   (Some (case dict_get depot_assignments (fst item) of
                            None \<Rightarrow> (6, 5) | Some d \<Rightarrow> d)))
                (\<lambda>res. returns (dict_set (fst acc) (fst item) (fst res),
                                 dict_set (snd acc) (fst item) (snd res))))
       ([], [])"

text \<open>\<open>collision_counts\<close>, and \<open>max(collision_counts, key=collision_counts.get)\<close>: the
  first key, in insertion order, of the greatest count.\<close>

definition count_up :: "(string \<times> int) list \<Rightarrow> string \<Rightarrow> (string \<times> int) list" where
  "count_up counts a = dict_set counts a ((case dict_get counts a of None \<Rightarrow> 0 | Some c \<Rightarrow> c) + 1)"

definition collision_counts :: "collision list \<Rightarrow> (string \<times> int) list" where
  "collision_counts collisions =
     fold (\<lambda>c counts. count_up (count_up counts (fst c)) (fst (snd c))) collisions []"

fun max_key_loop :: "'k \<times> int \<Rightarrow> ('k \<times> int) list \<Rightarrow> 'k" where
  "max_key_loop best [] = fst best"
| "max_key_loop best (kv # rest) =
     (if snd kv > snd best then max_key_loop kv rest else max_key_loop best rest)"

definition py_max_key :: "('k \<times> int) list \<Rightarrow> py_error + 'k" where
  "py_max_key d = (case d of [] \<Rightarrow> Inl ValueError | kv # rest \<Rightarrow> Inr (max_key_loop kv rest))"

text \<open>\<open>routes_with_delays[most_colliding_agent]['start_delay'] += 2\<close>\<close>

definition add_delay :: "delayed_routes \<Rightarrow> string \<Rightarrow> py_error + delayed_routes" where
  "add_delay routes_with_delays agent_id =
     (case dict_get routes_with_delays agent_id of
        None \<Rightarrow> Inl KeyError
      | Some rd \<Rightarrow> Inr (dict_set routes_with_delays agent_id (fst rd, snd rd + 2)))"

text \<open>
  One pass of the body of \<open>for iteration in range(max_iterations)\<close>: \<open>None\<close> is the
  \<open>break\<close>, otherwise the routes with the delay of the most colliding agent raised.
\<close>

definition iteration ::
  "agent list \<Rightarrow> (string \<times> pos) list \<Rightarrow> pos \<Rightarrow> grid option \<Rightarrow> delayed_routes
   \<Rightarrow> delayed_routes option outcome" where
  "iteration agents depot_assignments entry_point navigation_grid routes_with_delays =
     and_then (compute_all_trajectories agents depot_assignments entry_point navigation_grid
                 routes_with_delays)
       (\<lambda>res.
          let collisions = detect_collisions (fst res) in
          if length collisions = 0 then returns None
          else case py_max_key (collision_counts collisions) of
                 Inl e \<Rightarrow> raises e
               | Inr most_colliding_agent \<Rightarrow>
                   (case add_delay routes_with_delays most_colliding_agent of
                      Inl e \<Rightarrow> raises e
                    | Inr routes' \<Rightarrow> returns (Some routes')))"

text \<open>
  The loop itself, for the iterations that remain. With the routes it returns the number
  of passes it has made (the source prints it).
\<close>

fun resolve_loop ::
  "agent list \<Rightarrow> (string \<times> pos) list \<Rightarrow> pos \<Rightarrow> grid option \<Rightarrow> nat \<Rightarrow> nat \<Rightarrow> delayed_routes
   \<Rightarrow> (delayed_routes \<times> nat) outcome" where
  "resolve_loop agents depots entry_point navigation_grid 0 done routes = returns (routes, done)"
| "resolve_loop agents depots entry_point navigation_grid (Suc remaining) done routes =
     (case iteration agents depots entry_point navigation_grid routes of
        None \<Rightarrow> None
      | Some (Inl e) \<Rightarrow> Some (Inl e)
      | Some (Inr None) \<Rightarrow> returns (routes, Suc done)
      | Some (Inr (Some routes')) \<Rightarrow>
          resolve_loop agents depots entry_point navigation_grid remaining (Suc done) routes')"

record collision_result =
  cr_trajectories :: "(string \<times> trajectory) list"
  cr_collisions :: "collision list"
  cr_delays :: "(string \<times> int) list"
  cr_depot_positions :: "(string \<times> pos list) list"
  cr_depot_assignments :: "(string \<times> pos) list"
  cr_iterations :: nat

definition initial_routes :: "(string \<times> route) list \<Rightarrow> delayed_routes" where
  "initial_routes routes =
     fold (\<lambda>item acc. dict_set acc (fst item) (r_products (snd item), 0)) routes []"

text \<open>
  \<open>check_and_adjust_collisions\<close>, on the \<open>agents_routes\<close> of the solution.
  \<open>distance_data\<close> is passed on and never read. \<open>cr_iterations\<close> is not a key of the
  returned dictionary: it is the number of passes of the loop.
\<close>

definition check_and_adjust_collisions ::
  "(string \<times> route) list \<Rightarrow> agent list \<Rightarrow> pos \<Rightarrow> int \<Rightarrow> grid option \<Rightarrow> collision_result outcome" where
  "check_and_adjust_collisions routes agents entry_point max_iterations navigation_grid =
     (let depot_assignments = assign_depots (map fst routes) in
      and_then
        (resolve_loop agents depot_assignments entry_point navigation_grid
           (nat max_iterations) 0 (initial_routes routes))
        (\<lambda>lp. and_then
           (compute_all_trajectories agents depot_assignments entry_point navigation_grid (fst lp))
           (\<lambda>final. returns
              \<lparr>cr_trajectories = fst final,
               cr_collisions = detect_collisions (fst final),
               cr_delays = map (\<lambda>item. (fst item, snd (snd item))) (fst lp),
               cr_depot_positions = snd final,
               cr_depot_assignments = depot_assignments,
               cr_iterations = snd lp\<rparr>)))"

section \<open>run\_optimization.py\<close>

record warehouse =
  wh_entry_point :: pos
  wh_navigation_grid :: "grid option"

text \<open>\<open>orders[:num_orders]\<close>\<close>

definition py_prefix :: "'a list \<Rightarrow> int \<Rightarrow> 'a list" where
  "py_prefix xs n = (if 0 \<le> n then take (nat n) xs else take (nat (int (length xs) + n)) xs)"

text \<open>
  The dictionary \<open>run_optimization\<close> returns, with the two components its statistics
  are computed from; the statistics themselves (durations, costs, totals) are left out.
  The catalogues the source loads from files are arguments.
\<close>

record run_result =
  rr_status :: string
  rr_message :: "string option"
  rr_solution :: "opt_result option"
  rr_collision_result :: "collision_result option"

definition run_optimization ::
  "warehouse \<Rightarrow> product list \<Rightarrow> agent list \<Rightarrow> order list \<Rightarrow> string list \<Rightarrow> int \<Rightarrow> int
   \<Rightarrow> solver_answer \<Rightarrow> run_result outcome" where
  "run_optimization wh products agents orders zones num_orders max_iterations ans =
     and_then (calculate_distance_matrix products (wh_entry_point wh) (wh_navigation_grid wh))
       (\<lambda>dd.
          case optimize_routes (py_prefix orders num_orders) products agents
                 (map_of (dd_distances dd)) zones ans of
            Inl e \<Rightarrow> raises e
          | Inr solution \<Rightarrow>
              if status solution \<noteq> ''success'' then
                returns \<lparr>rr_status = ''error'', rr_message = Some ''Echec de l'optimisation'',
                         rr_solution = None, rr_collision_result = None\<rparr>
              else
                (case agents_routes solution of
                   None \<Rightarrow> raises KeyError
                 | Some routes \<Rightarrow>
                     and_then
                       (check_and_adjust_collisions routes agents (wh_entry_point wh)
                          max_iterations (wh_navigation_grid wh))
                       (\<lambda>cr. returns \<lparr>rr_status = ''success'', rr_message = None,
                                       rr_solution = Some solution,
                                       rr_collision_result = Some cr\<rparr>)))"

section \<open>Vocabulary and instances for the collision loop\<close>

text \<open>An order due at 08:00, before the day starts: no valuation satisfies the model.\<close>

definition late_orders :: "order list" where
  "late_orders = [\<lparr>oid = ''O2'', priority = ''standard'', deadline = (8, 0),
                    items = [\<lparr>product_id = ''P3'', quantity = 1\<rparr>]\<rparr>]"

definition late_units :: "pick_unit list" where
  "late_units = [\<lparr>u_product_id = ''P3'', u_order_id = ''O2'', u_product_data = ex_p3,
                   u_deadline = (8, 0), u_priority = ''standard''\<rparr>]"

definition ex_warehouse :: warehouse where
  "ex_warehouse = \<lparr>wh_entry_point = (6, 10), wh_navigation_grid = None\<rparr>"

text \<open>
  The number of collisions an agent takes part in, and the key \<open>max\<close> picks: the first
  one, in the order of the dictionary, whose count no other exceeds.
\<close>

definition participations :: "collision list \<Rightarrow> string \<Rightarrow> int" where
  "participations cs a =
     int (length (filter (\<lambda>c. fst c = a) cs)) + int (length (filter (\<lambda>c. fst (snd c) = a) cs))"

definition first_greatest :: "('k \<times> int) list \<Rightarrow> 'k \<Rightarrow> bool" where
  "first_greatest d k \<longleftrightarrow>
     (\<exists>pre c post. d = pre @ (k, c) # post \<and> (\<forall>x \<in> set pre. snd x < c) \<and> (\<forall>x \<in> set post. snd x \<le> c))"

text \<open>\<open>counts.get(a, 0)\<close>\<close>

definition count_of :: "(string \<times> int) list \<Rightarrow> string \<Rightarrow> int" where
  "count_of d a = (case dict_get d a of None \<Rightarrow> 0 | Some c \<Rightarrow> c)"

definition counts_ok :: "(string \<times> int) list \<Rightarrow> bool" where
  "counts_ok d \<longleftrightarrow> distinct (map fst d) \<and> (\<forall>x \<in> set d. 0 < snd x)"

definition delays_even :: "delayed_routes \<Rightarrow> bool" where
  "delays_even rwd \<longleftrightarrow> (\<forall>item \<in> set rwd. 0 \<le> snd (snd item) \<and> even (snd (snd item)))"

text \<open>
  Two humans and the entry point (5, 3), without a grid. In \<open>crossing_routes\<close> both pick
  on the cell (5, 4) at minute 0; in \<open>apart_routes\<close> the second picks on (6, 3).
\<close>

definition yard_h1 :: agent where
  "yard_h1 = \<lparr>aid = ''H1'', atype = ''human'', capacity_weight = 35, capacity_volume = 50,
               speed = 3 / 2, no_fragile = False, max_item_weight = None\<rparr>"

definition yard_h2 :: agent where
  "yard_h2 = \<lparr>aid = ''H2'', atype = ''human'', capacity_weight = 35, capacity_volume = 50,
               speed = 3 / 2, no_fragile = False, max_item_weight = None\<rparr>"

definition yard_pick :: "string \<Rightarrow> pos \<Rightarrow> pick" where
  "yard_pick i cell =
     \<lparr>u_product_id = i, u_order_id = ''O1'',
      u_product_data = \<lparr>pid = i, category = ''book'', weight = 1, volume = 1, fragile = False,
                        location = ''B'', pickup_location = cell, incompatible_with = []\<rparr>,
      u_deadline = (12, 0), u_priority = ''standard'', visit_time = 0, trip_number = 1\<rparr>"

definition yard_route :: "agent \<Rightarrow> pick \<Rightarrow> route" where
  "yard_route ag p = \<lparr>r_agent = ag, r_products = [p], r_total_weight = 1, r_total_volume = 1\<rparr>"

definition yard_entry :: pos where "yard_entry = (5, 3)"

definition crossing_routes :: "(string \<times> route) list" where
  "crossing_routes = [(''H1'', yard_route yard_h1 (yard_pick ''Q1'' (5, 4))),
                      (''H2'', yard_route yard_h2 (yard_pick ''Q1'' (5, 4)))]"

definition apart_routes :: "(string \<times> route) list" where
  "apart_routes = [(''H1'', yard_route yard_h1 (yard_pick ''Q1'' (5, 4))),
                   (''H2'', yard_route yard_h2 (yard_pick ''Q2'' (6, 3)))]"

definition crossing_trajectories :: "(string \<times> trajectory) list" where
  "crossing_trajectories =
     [(''H1'', [(0, (5, 4)), (1, (5, 4)), (2, (5, 4)), (3, (5, 3)), (4, (5, 3))]),
      (''H2'', [(0, (5, 4)), (1, (6, 4)), (2, (6, 4)), (3, (6, 4)), (4, (5, 4)), (5, (5, 3)),
                (6, (5, 3))])]"

definition apart_trajectories :: "(string \<times> trajectory) list" where
  "apart_trajectories =
     [(''H1'', [(0, (5, 4)), (1, (5, 4)), (2, (5, 4)), (3, (5, 3)), (4, (5, 3))]),
      (''H2'', [(0, (6, 3)), (1, (6, 4)), (2, (6, 4)), (3, (6, 4)), (4, (5, 4)), (5, (5, 3)),
                (6, (5, 3))])]"

definition yard_depot_positions :: "(string \<times> pos list) list" where
  "yard_depot_positions = [(''H1'', [(5, 4)]), (''H2'', [(6, 4)])]"

definition crossing_delayed :: delayed_routes where
  "crossing_delayed = [(''H1'', [yard_pick ''Q1'' (5, 4)], 2), (''H2'', [yard_pick ''Q1'' (5, 4)], 0)]"

definition crossing_final :: "(string \<times> trajectory) list" where
  "crossing_final =
     [(''H1'', [(2, (5, 4)), (3, (5, 4)), (4, (5, 4)), (5, (5, 3)), (6, (5, 3))]),
      (''H2'', [(0, (5, 4)), (1, (6, 4)), (2, (6, 4)), (3, (6, 4)), (4, (5, 4)), (5, (5, 3)),
                (6, (5, 3))])]"

definition crossing_result :: collision_result where
  "crossing_result =
     \<lparr>cr_trajectories = crossing_final,
      cr_collisions = [(''H1'', ''H2'', 4, (5, 4)), (''H1'', ''H2'', 5, (5, 3)), (''H1'', ''H2'', 6, (5, 3))],
      cr_delays = [(''H1'', 2), (''H2'', 0)],
      cr_depot_positions = yard_depot_positions,
      cr_depot_assignments = [(''H1'', (5, 4)), (''H2'', (6, 4))],
      cr_iterations = 1\<rparr>"

section \<open>Vocabulary for the distance table and the trajectories\<close>

text \<open>The grid argument the pipeline is given: none, or a rectangular one.\<close>

definition grid_ok :: "grid option \<Rightarrow> bool" where
  "grid_ok navigation \<longleftrightarrow> (case navigation of None \<Rightarrow> True | Some g \<Rightarrow> rectangular g)"

text \<open>A trajectory with a stamp at every minute from \<open>d\<close> up to, not including, \<open>t\<close>.\<close>

definition dense :: "int \<Rightarrow> trajectory \<Rightarrow> int \<Rightarrow> bool" where
  "dense d tr t \<longleftrightarrow> fst ` set tr = {d..<t} \<and> d \<le> t"

text \<open>The depot the trajectory uses: the assigned one, \<open>[6, 5]\<close> without.\<close>

definition depot_of :: "pos option \<Rightarrow> pos" where
  "depot_of assigned_depot = (case assigned_depot of None \<Rightarrow> (6, 5) | Some d \<Rightarrow> d)"

text \<open>
  The end of a trajectory from minute \<open>t\<close> on: the cells of \<open>depot_path\<close>, two minutes on
  the depot, the cells of \<open>entry_path\<close>, and the entry point at the last minute.
\<close>

definition closing_leg :: "trajectory \<Rightarrow> int \<Rightarrow> pos list \<Rightarrow> pos \<Rightarrow> pos list \<Rightarrow> pos \<Rightarrow> bool" where
  "closing_leg tr t depot_path depot entry_path entry_point \<longleftrightarrow>
     list_all (\<lambda>i. dict_get tr (t + int i) = Some (depot_path ! i)) [0..<length depot_path]
   \<and> dict_get tr (t + int (length depot_path)) = Some depot
   \<and> dict_get tr (t + int (length depot_path) + 1) = Some depot
   \<and> list_all (\<lambda>i. dict_get tr (t + int (length depot_path) + 2 + int i) = Some (entry_path ! i))
        [0..<length entry_path]
   \<and> dict_get tr (t + int (length depot_path) + 2 + int (length entry_path)) = Some entry_point"

text \<open>The navigation grid of the warehouse file: absent, or \<open>H\<close> rows of \<open>W\<close> cells 0 or 1.\<close>

definition well_formed_grid :: "grid option \<Rightarrow> bool" where
  "well_formed_grid navigation \<longleftrightarrow>
     (case navigation of None \<Rightarrow> True | Some g \<Rightarrow> rectangular g \<and> binary_grid g)"

text \<open>The ids of the table: \<open>'entry'\<close> and the product ids.\<close>

definition table_ids :: "product list \<Rightarrow> string set" where
  "table_ids products = insert ''entry'' (pid ` set products)"

text \<open>The body of the inner loop of \<open>calculate_distance_matrix\<close>.\<close>

definition table_cell :: "grid option \<Rightarrow> string \<times> pos \<Rightarrow> string \<times> pos
    \<Rightarrow> ((string \<times> string) \<times> int) list \<Rightarrow> ((string \<times> string) \<times> int) list outcome" where
  "table_cell navigation from_item to_item distances =
     and_then (point_distance navigation (snd from_item) (snd to_item))
       (\<lambda>dist. returns (dict_set distances (fst from_item, fst to_item) dist))"

text \<open>A small grid with a wall between the entry point (1, 1) and the product on (1, 3).\<close>

definition wall_grid :: grid where
  "wall_grid = [[1, 1, 1], [0, 0, 1], [1, 1, 1]]"

definition wall_products :: "product list" where
  "wall_products = [ex_p1\<lparr>pickup_location := (1, 3)\<rparr>, ex_p2\<lparr>pickup_location := (3, 1)\<rparr>]"
section \<open>Endpoint checks of \<open>astar_path\<close>\<close>

lemma cell_value_rectangular:
  assumes "rectangular g" "in_bounds g p"
  shows "\<exists>v. cell_value g p = Inr v"
proof -
  let ?gy = "grid_height g - snd p"
  from assms(2) have gy: "0 \<le> ?gy" "?gy < int (length g)"
    by (auto simp: in_bounds_def grid_height_def)
  then have row: "py_index g ?gy = Inr (g ! nat ?gy)"
    by (simp add: py_index_def Let_def)
  from gy have "g ! nat ?gy \<in> set g" by simp
  with assms(1) have len: "int (length (g ! nat ?gy)) = grid_width g"
    by (simp add: rectangular_def list_all_iff)
  from assms(2) have "0 \<le> fst p - 1" "fst p - 1 < grid_width g"
    by (auto simp: in_bounds_def)
  with len have "\<exists>v. py_index (g ! nat ?gy) (fst p - 1) = Inr v"
    by (simp add: py_index_def Let_def)
  with row show ?thesis by (simp add: cell_value_def grid_get_def)
qed

text \<open>
  C7 (amended). When start and goal differ and an endpoint is out of bounds or on a
  blocked cell of a rectangular grid, \<open>astar_path\<close> returns \<open>None\<close>, the "no path" value.
\<close>

theorem astar_path_rejects_bad_endpoint:
  assumes "rectangular g" and "start \<noteq> goal"
    and "\<not> in_bounds g start \<or> \<not> in_bounds g goal \<or> blocked g start \<or> blocked g goal"
  shows "astar_path start goal g = Some (Inr None)"
proof (cases "in_bounds g start \<and> in_bounds g goal")
  case False
  then show ?thesis using assms(2)
    by (auto simp: astar_path_def Let_def in_bounds_def)
next
  case True
  then have bs: "in_bounds g start" and bg: "in_bounds g goal" by simp_all
  from cell_value_rectangular [OF assms(1) bs] obtain sv where sv: "cell_value g start = Inr sv" ..
  from cell_value_rectangular [OF assms(1) bg] obtain ev where ev: "cell_value g goal = Inr ev" ..
  from assms(3) True sv ev have "sv = 0 \<or> ev = 0" by (auto simp: blocked_def)
  then show ?thesis using assms(2) bs bg sv ev
    by (auto simp: astar_path_def Let_def in_bounds_def cell_value_def)
qed

theorem astar_path_rejects_bad_endpoint_witness:
  "rectangular [[1, 0]] \<and> (1, 1) \<noteq> ((2, 1) :: pos) \<and> blocked [[1, 0]] (2, 1)
   \<and> astar_path (1, 1) (2, 1) [[1, 0]] = Some (Inr None)"
proof -
  have r: "rectangular [[1, 0]]" by (simp add: rectangular_def grid_width_def)
  have n: "(1, 1) \<noteq> ((2, 1) :: pos)" by simp
  have b: "blocked [[1, 0]] (2, 1)"
    by (simp add: blocked_def in_bounds_def cell_value_def grid_get_def py_index_def
        grid_width_def grid_height_def)
  from astar_path_rejects_bad_endpoint [OF r n] b r n show ?thesis by blast
qed

text \<open>
  With start equal to goal the one-cell path is returned before any check: here for a
  cell outside the grid.
\<close>

theorem astar_path_same_cell_counterexample:
  "\<not> in_bounds [[1]] (0, 0) \<and> astar_path (0, 0) (0, 0) [[1]] = Some (Inr (Some [(0, 0)]))"
  by (simp add: in_bounds_def astar_path_def)

section \<open>Partial correctness of \<open>astar_path\<close>\<close>

lemma traversable_passable: "traversable g p \<Longrightarrow> passable g p"
  by (simp add: traversable_def passable_def)

lemma heap_min_Min: "h \<noteq> [] \<Longrightarrow> heap_min h = Min (set h)"
proof (cases h)
  case Nil
  then show "h \<noteq> [] \<Longrightarrow> ?thesis" by simp
next
  case (Cons a list)
  show ?thesis unfolding Cons heap_min_def list.sel by (rule Min.set_eq_fold [symmetric])
qed

lemma neighbors_loop_Cons:
  "neighbors_loop p g (d # ds) acc =
     (if in_bounds g (fst p + fst d, snd p + snd d) then
        (case cell_value g (fst p + fst d, snd p + snd d) of
           Inl e \<Rightarrow> Inl e
         | Inr v \<Rightarrow> neighbors_loop p g ds
                     (if v = 1 then acc @ [(fst p + fst d, snd p + snd d)] else acc))
      else neighbors_loop p g ds acc)"
  by (simp add: in_bounds_def cell_value_def Let_def)

declare neighbors_loop.simps(2) [simp del]

lemma heap_min_in: "h \<noteq> [] \<Longrightarrow> heap_min h \<in> set h"
  by (simp add: heap_min_Min)

lemma heap_min_le: "x \<in> set h \<Longrightarrow> heap_min h \<le> x"
  by (cases "h = []") (simp_all add: heap_min_Min)

lemma neighbors_loop_set:
  "neighbors_loop p g ds acc = Inr r \<Longrightarrow>
   set r = set acc \<union> {n. \<exists>d \<in> set ds. n = (fst p + fst d, snd p + snd d) \<and> traversable g n}"
proof (induction ds arbitrary: acc)
  case Nil
  then show ?case by simp
next
  case (Cons d ds)
  let ?n = "(fst p + fst d, snd p + snd d)"
  show ?case
  proof (cases "in_bounds g ?n")
    case False
    then have "\<not> traversable g ?n" by (simp add: traversable_def)
    moreover from False Cons.prems have "neighbors_loop p g ds acc = Inr r"
      by (simp add: neighbors_loop_Cons)
    ultimately show ?thesis using Cons.IH by auto
  next
    case True
    with Cons.prems obtain v where v: "cell_value g ?n = Inr v"
      and r: "neighbors_loop p g ds (if v = 1 then acc @ [?n] else acc) = Inr r"
      by (auto simp: neighbors_loop_Cons split: sum.splits)
    from v True have "traversable g ?n \<longleftrightarrow> v = 1" by (simp add: traversable_def)
    with Cons.IH [OF r] show ?thesis by auto
  qed
qed

lemma adjacent4_iff:
  "adjacent4 p n \<longleftrightarrow> (\<exists>d \<in> set directions. n = (fst p + fst d, snd p + snd d))"
  by (cases p; cases n) (auto simp: adjacent4_def manhattan_distance_def directions_def)

lemma get_neighbors_set:
  "get_neighbors p g = Inr ns \<Longrightarrow> set ns = {n. adjacent4 p n \<and> traversable g n}"
  by (auto simp: get_neighbors_def adjacent4_iff dest!: neighbors_loop_set)

lemma neighbors_loop_total:
  "rectangular g \<Longrightarrow> \<exists>r. neighbors_loop p g ds acc = Inr r"
proof (induction ds arbitrary: acc)
  case Nil
  then show ?case by simp
next
  case (Cons d ds)
  let ?n = "(fst p + fst d, snd p + snd d)"
  show ?case
  proof (cases "in_bounds g ?n")
    case False
    then show ?thesis using Cons by (simp add: neighbors_loop_Cons)
  next
    case True
    from cell_value_rectangular [OF Cons.prems True] obtain v where "cell_value g ?n = Inr v" ..
    then show ?thesis using Cons True
      by (simp add: neighbors_loop_Cons)
  qed
qed

lemma get_neighbors_total: "rectangular g \<Longrightarrow> \<exists>ns. get_neighbors p g = Inr ns"
  by (simp add: get_neighbors_def neighbors_loop_total)

lemma explore_closed:
  "explore current end nbs st = Inr st' \<Longrightarrow> closed_set st' = closed_set st"
  by (induction current "end" nbs st rule: explore.induct)
     (auto simp: Let_def split: if_splits option.splits)

lemma explore_path_inv:
  assumes "explore current end nbs st = Inr st'"
    and "path_inv start g st" and "current \<in> closed_set st" and "start \<in> closed_set st"
    and "\<forall>n \<in> set nbs. adjacent4 current n \<and> traversable g n"
  shows "path_inv start g st'"
  using assms
proof (induction current "end" nbs st rule: explore.induct)
  case (1 current "end" st)
  then show ?case by simp
next
  case (2 current "end" neighbor rest st)
  show ?case
  proof (cases "neighbor \<in> closed_set st")
    case True
    with 2 show ?thesis by simp
  next
    case False
    with "2.prems"(1) obtain gc where gc: "g_score st current = Some gc"
      by (auto split: option.splits)
    let ?upd = "(case g_score st neighbor of None \<Rightarrow> True | Some gn \<Rightarrow> gc + 1 < gn)"
    show ?thesis
    proof (cases ?upd)
      case no: False
      with False gc 2 show ?thesis by (simp add: Let_def)
    next
      case yes: True
      let ?st = "st\<lparr>came_from := (came_from st)(neighbor \<mapsto> current),
                   g_score := (g_score st)(neighbor \<mapsto> gc + 1),
                   counter := counter st + 1,
                   open_set := heappush (open_set st)
                     (gc + 1 + manhattan_distance neighbor end, counter st + 1, neighbor)\<rparr>"
      from yes False gc "2.prems"(1) have ex: "explore current end rest ?st = Inr st'"
        by (simp add: Let_def)
      from False "2.prems"(4) have ns: "neighbor \<noteq> start" by auto
      have inv: "path_inv start g ?st"
        using "2.prems"(2,3,4,5) False ns
        unfolding path_inv_def by (auto simp: heappush_def node_def)
      show ?thesis
        using "2.IH"(2) [OF False gc refl yes ex inv] "2.prems"(3,4,5) by simp
    qed
  qed
qed


lemma reconstruct_chain:
  assumes "reconstruct cf p = Some q"
  shows "p \<noteq> [] \<longrightarrow> successively (\<lambda>x y. cf x = Some y) p \<longrightarrow>
         q \<noteq> [] \<and> hd q = hd p \<and> successively (\<lambda>x y. cf x = Some y) q \<and> cf (last q) = None"
  using assms
proof (induction cf p q rule: reconstruct.raw_induct [rotated, consumes 1])
  case (1 rec cf path q)
  show ?case
  proof (cases "cf (last path)")
    case None
    with 1(2) show ?thesis by auto
  next
    case (Some prev)
    with 1(2) have "rec cf (path @ [prev]) = Some q" by simp
    from 1(1) [OF this] Some show ?thesis
      by (auto simp: successively_append_iff)
  qed
qed

lemma chain_to_start:
  assumes "path_inv start g st" and "passable g start"
  shows "successively (\<lambda>x y. came_from st x = Some y) q \<Longrightarrow> q \<noteq> [] \<Longrightarrow>
         hd q = start \<or> hd q \<in> dom (came_from st) \<Longrightarrow> came_from st (last q) = None \<Longrightarrow>
         last q = start \<and> successively (\<lambda>x y. grid_step g y x) q"
proof (induction q)
  case Nil
  then show ?case by simp
next
  case (Cons x xs)
  show ?case
  proof (cases xs)
    case Nil
    with Cons.prems show ?thesis by auto
  next
    case (Cons y ys)
    with Cons.prems(1) have xy: "came_from st x = Some y"
      and ch: "successively (\<lambda>x y. came_from st x = Some y) xs" by simp_all
    from xy assms(1) have y: "y \<in> closed_set st" "adjacent4 y x" "traversable g x"
      unfolding path_inv_def by blast+
    from y(1) assms(1) have ys: "y = start \<or> y \<in> dom (came_from st)"
      unfolding path_inv_def by blast
    have "passable g y"
    proof (cases "y = start")
      case True
      with assms(2) show ?thesis by simp
    next
      case False
      with ys obtain z where "came_from st y = Some z" by auto
      with assms(1) have "traversable g y" unfolding path_inv_def by blast
      then show ?thesis by (rule traversable_passable)
    qed
    with y have st: "grid_step g y x" by (simp add: grid_step_def)
    from Cons.IH [OF ch] Cons Cons.prems(4) ys
    have "last xs = start \<and> successively (\<lambda>x y. grid_step g y x) xs" by simp
    with st Cons show ?thesis by simp
  qed
qed

lemma pop_path_inv:
  assumes "path_inv start g st" and "open_set st \<noteq> []"
  defines "ent \<equiv> heap_min (open_set st)"
  defines "st1 \<equiv> st\<lparr>open_set := remove1 ent (open_set st),
                     closed_set := insert (node ent) (closed_set st)\<rparr>"
  shows "path_inv start g st1" and "start \<in> closed_set st1" and "node ent \<in> closed_set st1"
    and "node ent = start \<or> node ent \<in> dom (came_from st)"
proof -
  have ent: "ent \<in> set (open_set st)" unfolding ent_def by (rule heap_min_in [OF assms(2)])
  with assms(1) show n: "node ent = start \<or> node ent \<in> dom (came_from st)"
    unfolding path_inv_def by blast
  from assms(1) ent show s: "start \<in> closed_set st1"
    unfolding path_inv_def st1_def by auto
  show "node ent \<in> closed_set st1" by (simp add: st1_def)
  have sub: "set (remove1 ent (open_set st)) \<subseteq> set (open_set st)" by (rule set_remove1_subset)
  show "path_inv start g st1"
    unfolding path_inv_def
  proof (intro conjI)
    show "\<forall>m c. came_from st1 m = Some c \<longrightarrow>
        c \<in> closed_set st1 \<and> adjacent4 c m \<and> traversable g m \<and> m \<noteq> start"
      using assms(1) unfolding path_inv_def st1_def by auto
    show "\<forall>c \<in> closed_set st1. c = start \<or> c \<in> dom (came_from st1)"
      using assms(1) n unfolding path_inv_def st1_def by auto
    show "\<forall>e \<in> set (open_set st1). node e = start \<or> node e \<in> dom (came_from st1)"
      using assms(1) sub unfolding path_inv_def st1_def by auto
    show "start \<in> closed_set st1 \<or> (\<forall>e \<in> set (open_set st1). node e = start)"
      using s by simp
  qed
qed

lemma astar_loop_path:
  assumes "astar_loop goal g st = Some r"
  shows "path_inv start g st \<longrightarrow> passable g start \<longrightarrow>
         (\<forall>p. r = Inr (Some p) \<longrightarrow>
            p \<noteq> [] \<and> hd p = start \<and> last p = goal \<and> successively (grid_step g) p)"
  using assms
proof (induction goal g st r rule: astar_loop.raw_induct [rotated, consumes 1])
  case (1 loop goal g st r)
  show ?case
  proof (intro impI allI)
    fix p
    assume inv: "path_inv start g st" and ps: "passable g start" and r: "r = Inr (Some p)"
    from 1(2) r have ne: "open_set st \<noteq> []" by (auto split: if_splits)
    define ent where "ent = heap_min (open_set st)"
    define st1 where "st1 = st\<lparr>open_set := remove1 ent (open_set st),
                     closed_set := insert (node ent) (closed_set st)\<rparr>"
    note pop = pop_path_inv [OF inv ne, folded ent_def, folded st1_def]
    show "p \<noteq> [] \<and> hd p = start \<and> last p = goal \<and> successively (grid_step g) p"
    proof (cases "node ent = goal")
      case True
      with 1(2) ne r obtain q where q: "reconstruct (came_from st) [goal] = Some q" and p: "p = rev q"
        by (auto simp: Let_def ent_def node_def split: option.splits)
      from reconstruct_chain [OF q]
      have c: "q \<noteq> []" "hd q = goal" "successively (\<lambda>x y. came_from st x = Some y) q"
        "came_from st (last q) = None" by simp_all
      from pop(4) True c(2) have "hd q = start \<or> hd q \<in> dom (came_from st)" by simp
      from chain_to_start [OF inv ps c(3) c(1) this c(4)] c p show ?thesis
        by (simp add: hd_rev last_rev)
    next
      case False
      with 1(2) ne r obtain nbs st' where nbs: "get_neighbors (node ent) g = Inr nbs"
        and ex: "explore (node ent) goal nbs st1 = Inr st'"
        and lp: "loop goal g st' = Some r"
        by (auto simp: Let_def ent_def node_def st1_def split: sum.splits)
      from get_neighbors_set [OF nbs]
      have "\<forall>n \<in> set nbs. adjacent4 (node ent) n \<and> traversable g n" by auto
      from explore_path_inv [OF ex pop(1) pop(3) pop(2) this] have "path_inv start g st'" .
      with 1(1) [OF lp] ps r show ?thesis by simp
    qed
  qed
qed

lemma astar_init_path_inv: "path_inv start g (astar_init start)"
  by (simp add: path_inv_def astar_init_def heappush_def node_def)

lemma astar_path_passable:
  assumes "astar_path start goal g = Some (Inr (Some p))" and "start \<noteq> goal"
  shows "passable g start \<and> astar_loop goal g (astar_init start) = Some (Inr (Some p))"
  using assms
  by (auto simp: astar_path_def Let_def passable_def in_bounds_def cell_value_def
      split: if_splits sum.splits)

text \<open>
  C3. When \<open>astar_path\<close> returns a path, the path starts at \<open>start\<close>, ends at
  \<open>goal\<close>, each pair of consecutive cells is 4-adjacent with the cell stepped into
  traversable (in bounds, value 1) and the cell left passable (in bounds, value not 0:
  the first cell is checked against 0 only), and \<open>calculate_distance\<close> on the same
  inputs returns the length of the path minus one.
\<close>

theorem astar_path_contract:
  assumes "astar_path start goal g = Some (Inr (Some path))"
  shows "path \<noteq> [] \<and> hd path = start \<and> last path = goal
         \<and> successively (grid_step g) path
         \<and> calculate_distance start goal g = Some (Inr (int (length path) - 1))"
proof -
  have d: "calculate_distance start goal g = Some (Inr (int (length path) - 1))"
    using assms by (simp add: calculate_distance_def)
  show ?thesis
  proof (cases "start = goal")
    case True
    with assms have "path = [start]" by (simp add: astar_path_def)
    with True d show ?thesis by simp
  next
    case False
    from astar_path_passable [OF assms False] astar_loop_path [of goal g _ _ start]
      astar_init_path_inv [of start g] d
    show ?thesis by blast
  qed
qed


lemmas grid_eval = grid_height_def grid_width_def grid_get_def py_index_def
  get_neighbors_def directions_def neighbors_loop.simps(2) heappush_def heap_min_def
  manhattan_distance_def

lemma astar_path_example:
  "astar_path (1, 1) (2, 2) [[1, 1], [1, 0]] = Some (Inr (Some [(1, 1), (1, 2), (2, 2)]))"
  apply (simp add: astar_path_def astar_init_def grid_eval)
  apply (subst astar_loop.simps, simp add: grid_eval)
  apply (subst astar_loop.simps, simp add: grid_eval)
  apply (subst astar_loop.simps, simp add: grid_eval)
  apply (subst reconstruct.simps, simp)+
  done

theorem astar_path_contract_witness:
  "astar_path (1, 1) (2, 2) [[1, 1], [1, 0]] = Some (Inr (Some [(1, 1), (1, 2), (2, 2)]))
   \<and> successively (grid_step [[1, 1], [1, 0]]) [(1, 1), (1, 2), (2, 2)]
   \<and> calculate_distance (1, 1) (2, 2) [[1, 1], [1, 0]] = Some (Inr 2)"
  using astar_path_contract [OF astar_path_example] astar_path_example by simp

section \<open>Termination and optimality of \<open>astar_path\<close>\<close>

lemma opt_invD:
  assumes "search_inv s e g X st"
  shows "g_score st s = Some 0"
    and "\<And>v gv. g_score st v = Some gv \<Longrightarrow> 0 \<le> gv \<and> reach g s (nat gv) v"
    and "\<And>v gv k. v \<in> closed_set st \<Longrightarrow> g_score st v = Some gv \<Longrightarrow> reach g s k v \<Longrightarrow> gv \<le> int k"
    and "\<And>u. u \<in> closed_set st \<Longrightarrow> u \<in> dom (g_score st)"
    and "\<And>u v. u \<in> closed_set st \<Longrightarrow> u \<notin> X \<Longrightarrow> edge g u v \<Longrightarrow>
           \<exists>gu gv. g_score st u = Some gu \<and> g_score st v = Some gv \<and> gv \<le> gu + 1"
    and "\<And>v gv. g_score st v = Some gv \<Longrightarrow> v \<notin> closed_set st \<Longrightarrow>
           \<exists>f c. (f, c, v) \<in> set (open_set st) \<and> f \<le> gv + manhattan_distance v e"
    and "\<And>x. x \<in> set (open_set st) \<Longrightarrow>
           \<exists>gv. g_score st (node x) = Some gv \<and> (node x = s \<or> gv + manhattan_distance (node x) e \<le> fst x)"
    and "s \<in> closed_set st \<or> (\<exists>c. (0, c, s) \<in> set (open_set st))"
    and "\<And>m c. came_from st m = Some c \<Longrightarrow>
           c \<in> closed_set st \<and> (\<exists>gc. g_score st c = Some gc \<and> g_score st m = Some (gc + 1))"
    and "e \<notin> closed_set st"
  using assms unfolding search_inv_def by blast+

lemma manhattan_nonneg: "0 \<le> manhattan_distance a b"
  by (simp add: manhattan_distance_def)

lemma manhattan_sym: "manhattan_distance a b = manhattan_distance b a"
  by (simp add: manhattan_distance_def abs_minus_commute)

lemma manhattan_self [simp]: "manhattan_distance a a = 0"
  by (simp add: manhattan_distance_def)

lemma heuristic_consistent: "adjacent4 u v \<Longrightarrow> manhattan_distance u e \<le> manhattan_distance v e + 1"
  by (auto simp: adjacent4_def manhattan_distance_def)

text \<open>Every reachable cell is closed with a score within the walk's length, or the open
  set holds an entry whose key is within the walk's length plus the heuristic.\<close>

lemma frontier:
  assumes inv: "opt_inv s e g st" and r: "reach g s k v"
  shows "(v \<in> closed_set st \<and> (\<exists>gv. g_score st v = Some gv \<and> gv \<le> int k))
       \<or> (\<exists>x \<in> set (open_set st). fst x \<le> int k + manhattan_distance v e)"
  using r
proof (induction rule: reach.induct)
  case reach_0
  from opt_invD(8) [OF inv] show ?case
  proof
    assume "s \<in> closed_set st"
    with opt_invD(1) [OF inv] show ?thesis by simp
  next
    assume "\<exists>c. (0, c, s) \<in> set (open_set st)"
    then obtain c where "(0, c, s) \<in> set (open_set st)" ..
    then show ?thesis using manhattan_nonneg [of s e] by force
  qed
next
  case (reach_Suc k u v)
  from reach_Suc.IH show ?case
  proof
    assume "u \<in> closed_set st \<and> (\<exists>gu. g_score st u = Some gu \<and> gu \<le> int k)"
    then obtain gu where u: "u \<in> closed_set st" "g_score st u = Some gu" "gu \<le> int k" by blast
    from opt_invD(5) [OF inv u(1) _ reach_Suc.hyps(2)] u(2) obtain gv
      where gv: "g_score st v = Some gv" "gv \<le> gu + 1" by auto
    show ?thesis
    proof (cases "v \<in> closed_set st")
      case True
      with gv u(3) show ?thesis by auto
    next
      case False
      from opt_invD(6) [OF inv gv(1) False] obtain f c
        where "(f, c, v) \<in> set (open_set st)" "f \<le> gv + manhattan_distance v e" by blast
      with gv(2) u(3) show ?thesis by force
    qed
  next
    assume "\<exists>x \<in> set (open_set st). fst x \<le> int k + manhattan_distance u e"
    then obtain x where "x \<in> set (open_set st)" "fst x \<le> int k + manhattan_distance u e" ..
    moreover from reach_Suc.hyps(2) have "manhattan_distance u e \<le> manhattan_distance v e + 1"
      by (simp add: edge_def heuristic_consistent)
    ultimately show ?thesis by force
  qed
qed

lemma heap_min_fst: "x \<in> set h \<Longrightarrow> fst (heap_min h) \<le> fst x"
  using heap_min_le [of x h] by (auto simp: less_eq_prod_def)

text \<open>The node taken from the heap has an optimal score.\<close>

lemma popped_optimal:
  assumes inv: "opt_inv s e g st" and ne: "open_set st \<noteq> []"
    and r: "reach g s k (node (heap_min (open_set st)))"
  shows "\<exists>gn. g_score st (node (heap_min (open_set st))) = Some gn \<and> gn \<le> int k"
proof -
  let ?x = "heap_min (open_set st)"
  have x: "?x \<in> set (open_set st)" by (rule heap_min_in [OF ne])
  from opt_invD(7) [OF inv x] obtain gn where gn: "g_score st (node ?x) = Some gn"
    and f: "node ?x = s \<or> gn + manhattan_distance (node ?x) e \<le> fst ?x" by blast
  from frontier [OF inv r] have "gn \<le> int k"
  proof
    assume "node ?x \<in> closed_set st \<and> (\<exists>gv. g_score st (node ?x) = Some gv \<and> gv \<le> int k)"
    with gn show ?thesis by simp
  next
    assume "\<exists>y \<in> set (open_set st). fst y \<le> int k + manhattan_distance (node ?x) e"
    then obtain y where y: "y \<in> set (open_set st)" "fst y \<le> int k + manhattan_distance (node ?x) e" ..
    from heap_min_fst [OF y(1)] y(2) have le: "fst ?x \<le> int k + manhattan_distance (node ?x) e" by simp
    from f show ?thesis
    proof
      assume "node ?x = s"
      with gn opt_invD(1) [OF inv] show ?thesis by simp
    next
      assume "gn + manhattan_distance (node ?x) e \<le> fst ?x"
      with le show ?thesis by simp
    qed
  qed
  with gn show ?thesis by blast
qed

lemma pop_search_inv:
  assumes inv: "opt_inv s e g st" and ne: "open_set st \<noteq> []"
    and n: "node (heap_min (open_set st)) \<noteq> e"
  defines "ent \<equiv> heap_min (open_set st)"
  defines "st1 \<equiv> st\<lparr>open_set := remove1 ent (open_set st),
                     closed_set := insert (node ent) (closed_set st)\<rparr>"
  shows "search_inv s e g {node ent} st1"
proof -
  have x: "ent \<in> set (open_set st)" unfolding ent_def by (rule heap_min_in [OF ne])
  from opt_invD(7) [OF inv x] obtain gn where gn: "g_score st (node ent) = Some gn" by blast
  have sub: "set (open_set st1) \<subseteq> set (open_set st)"
    unfolding st1_def using set_remove1_subset [of ent "open_set st"] by simp
  have keep: "y \<in> set (open_set st1)" if "y \<in> set (open_set st)" "node y \<noteq> node ent" for y
  proof -
    from that(2) have "y \<noteq> ent" by auto
    with that(1) show ?thesis by (simp add: st1_def)
  qed
  show ?thesis unfolding search_inv_def
  proof (intro conjI)
    show "g_score st1 s = Some 0" using opt_invD(1) [OF inv] by (simp add: st1_def)
    show "\<forall>v gv. g_score st1 v = Some gv \<longrightarrow> 0 \<le> gv \<and> reach g s (nat gv) v"
      using opt_invD(2) [OF inv] by (simp add: st1_def)
    show "\<forall>v \<in> closed_set st1. \<forall>gv k. g_score st1 v = Some gv \<longrightarrow> reach g s k v \<longrightarrow> gv \<le> int k"
    proof (intro ballI allI impI)
      fix v gv k assume v: "v \<in> closed_set st1" and gv: "g_score st1 v = Some gv" and r: "reach g s k v"
      show "gv \<le> int k"
      proof (cases "v = node ent")
        case True
        with popped_optimal [OF inv ne] r gv show ?thesis by (auto simp: ent_def st1_def)
      next
        case False
        with v have "v \<in> closed_set st" by (simp add: st1_def)
        from opt_invD(3) [OF inv this _ r] gv show ?thesis by (simp add: st1_def)
      qed
    qed
    show "\<forall>u \<in> closed_set st1. u \<in> dom (g_score st1)"
      using opt_invD(4) [OF inv] gn by (auto simp: st1_def)
    show "\<forall>u \<in> closed_set st1 - {node ent}. \<forall>v. edge g u v \<longrightarrow>
         (\<exists>gu gv. g_score st1 u = Some gu \<and> g_score st1 v = Some gv \<and> gv \<le> gu + 1)"
      using opt_invD(5) [OF inv] by (simp add: st1_def)
    show "\<forall>v gv. g_score st1 v = Some gv \<and> v \<notin> closed_set st1 \<longrightarrow>
         (\<exists>f c. (f, c, v) \<in> set (open_set st1) \<and> f \<le> gv + manhattan_distance v e)"
    proof (intro allI impI)
      fix v gv assume a: "g_score st1 v = Some gv \<and> v \<notin> closed_set st1"
      then have "g_score st v = Some gv" "v \<notin> closed_set st" "v \<noteq> node ent" by (auto simp: st1_def)
      from opt_invD(6) [OF inv this(1,2)] obtain f c
        where fc: "(f, c, v) \<in> set (open_set st)" "f \<le> gv + manhattan_distance v e" by blast
      from keep [OF fc(1)] \<open>v \<noteq> node ent\<close> have "(f, c, v) \<in> set (open_set st1)" by (simp add: node_def)
      with fc(2) show "\<exists>f c. (f, c, v) \<in> set (open_set st1) \<and> f \<le> gv + manhattan_distance v e" by blast
    qed
    show "\<forall>x \<in> set (open_set st1).
         \<exists>gv. g_score st1 (node x) = Some gv \<and> (node x = s \<or> gv + manhattan_distance (node x) e \<le> fst x)"
      using opt_invD(7) [OF inv] sub by (auto simp: st1_def)
    show "s \<in> closed_set st1 \<or> (\<exists>c. (0, c, s) \<in> set (open_set st1))"
    proof (cases "s \<in> closed_set st1")
      case False
      then have ns: "s \<noteq> node ent" "s \<notin> closed_set st" by (auto simp: st1_def)
      with opt_invD(8) [OF inv] obtain c where c: "(0, c, s) \<in> set (open_set st)" by blast
      from keep [OF c] ns have "(0, c, s) \<in> set (open_set st1)" by (simp add: node_def)
      then show ?thesis by blast
    qed simp
    show "\<forall>m c. came_from st1 m = Some c \<longrightarrow>
         c \<in> closed_set st1 \<and> (\<exists>gc. g_score st1 c = Some gc \<and> g_score st1 m = Some (gc + 1))"
      using opt_invD(9) [OF inv] by (simp add: st1_def)
    show "e \<notin> closed_set st1" using opt_invD(10) [OF inv] n by (simp add: st1_def ent_def)
  qed
qed

lemma explore_Cons:
  "explore current e (neighbor # rest) st =
     (if neighbor \<in> closed_set st then explore current e rest st
      else case g_score st current of
        None \<Rightarrow> Inl KeyError
      | Some gc \<Rightarrow>
          if (case g_score st neighbor of None \<Rightarrow> True | Some gn \<Rightarrow> gc + 1 < gn)
          then explore current e rest (relax current e neighbor (gc + 1) st)
          else explore current e rest st)"
  by (simp add: relax_def Let_def split: option.splits)

lemma relax_search_inv:
  assumes inv: "search_inv s e g {n} st" and n: "n \<in> closed_set st" and gn: "g_score st n = Some gn"
    and v: "v \<notin> closed_set st" and ed: "edge g n v"
    and better: "case g_score st v of None \<Rightarrow> True | Some gv \<Rightarrow> gn + 1 < gv"
  shows "search_inv s e g {n} (relax n e v (gn + 1) st)"
proof -
  let ?st = "relax n e v (gn + 1) st"
  have cl [simp]: "closed_set ?st = closed_set st" by (simp add: relax_def)
  have G: "g_score ?st = (g_score st)(v \<mapsto> gn + 1)" by (simp add: relax_def)
  have O: "set (open_set ?st) = insert (gn + 1 + manhattan_distance v e, counter st + 1, v) (set (open_set st))"
    by (simp add: relax_def heappush_def)
  have CF: "came_from ?st = (came_from st)(v \<mapsto> n)" by (simp add: relax_def)
  from opt_invD(2) [OF inv gn] have gn0: "0 \<le> gn" and rn: "reach g s (nat gn) n" by simp_all
  from n v have nv: "n \<noteq> v" by auto
  have vs: "v \<noteq> s"
  proof
    assume "v = s"
    with opt_invD(1) [OF inv] better gn0 show False by simp
  qed
  have le: "gn + 1 \<le> gv" if "g_score st v = Some gv" for gv using better that by simp
  show ?thesis unfolding search_inv_def
  proof (intro conjI)
    show "g_score ?st s = Some 0" using opt_invD(1) [OF inv] vs by (simp add: G)
    show "\<forall>w gw. g_score ?st w = Some gw \<longrightarrow> 0 \<le> gw \<and> reach g s (nat gw) w"
    proof (intro allI impI)
      fix w gw assume w: "g_score ?st w = Some gw"
      show "0 \<le> gw \<and> reach g s (nat gw) w"
      proof (cases "w = v")
        case True
        with w have "gw = gn + 1" by (simp add: G)
        moreover from gn0 have "nat (gn + 1) = Suc (nat gn)" by simp
        ultimately show ?thesis using gn0 reach_Suc [OF rn ed] True by simp
      next
        case False
        with w opt_invD(2) [OF inv, of w gw] show ?thesis by (simp add: G)
      qed
    qed
    show "\<forall>w \<in> closed_set ?st. \<forall>gw k. g_score ?st w = Some gw \<longrightarrow> reach g s k w \<longrightarrow> gw \<le> int k"
      using opt_invD(3) [OF inv] v by (auto simp: G)
    show "\<forall>u \<in> closed_set ?st. u \<in> dom (g_score ?st)"
      using opt_invD(4) [OF inv] by (auto simp: G)
    show "\<forall>u \<in> closed_set ?st - {n}. \<forall>w. edge g u w \<longrightarrow>
         (\<exists>gu gw. g_score ?st u = Some gu \<and> g_score ?st w = Some gw \<and> gw \<le> gu + 1)"
    proof (intro ballI allI impI)
      fix u w assume u: "u \<in> closed_set ?st - {n}" and uw: "edge g u w"
      then have uc: "u \<in> closed_set st" "u \<noteq> n" by simp_all
      with v have uv: "u \<noteq> v" by auto
      from opt_invD(5) [OF inv uc(1) _ uw] uc(2) obtain gu gw
        where o: "g_score st u = Some gu" "g_score st w = Some gw" "gw \<le> gu + 1" by auto
      show "\<exists>gu gw. g_score ?st u = Some gu \<and> g_score ?st w = Some gw \<and> gw \<le> gu + 1"
      proof (cases "w = v")
        case True
        with o le [of gw] have "gn + 1 \<le> gu + 1" by simp
        with o(1) uv True show ?thesis by (simp add: G)
      next
        case False
        with o uv show ?thesis by (simp add: G)
      qed
    qed
    show "\<forall>w gw. g_score ?st w = Some gw \<and> w \<notin> closed_set ?st \<longrightarrow>
         (\<exists>f c. (f, c, w) \<in> set (open_set ?st) \<and> f \<le> gw + manhattan_distance w e)"
    proof (intro allI impI)
      fix w gw assume a: "g_score ?st w = Some gw \<and> w \<notin> closed_set ?st"
      show "\<exists>f c. (f, c, w) \<in> set (open_set ?st) \<and> f \<le> gw + manhattan_distance w e"
      proof (cases "w = v")
        case True
        with a have "gw = gn + 1" by (simp add: G)
        with True show ?thesis unfolding O by blast
      next
        case False
        with a have "g_score st w = Some gw" "w \<notin> closed_set st" by (simp_all add: G)
        from opt_invD(6) [OF inv this] show ?thesis unfolding O by blast
      qed
    qed
    show "\<forall>x \<in> set (open_set ?st).
         \<exists>gw. g_score ?st (node x) = Some gw \<and> (node x = s \<or> gw + manhattan_distance (node x) e \<le> fst x)"
    proof
      fix x assume x: "x \<in> set (open_set ?st)"
      show "\<exists>gw. g_score ?st (node x) = Some gw \<and> (node x = s \<or> gw + manhattan_distance (node x) e \<le> fst x)"
      proof (cases "x \<in> set (open_set st)")
        case True
        from opt_invD(7) [OF inv True] obtain gw where gw: "g_score st (node x) = Some gw"
          "node x = s \<or> gw + manhattan_distance (node x) e \<le> fst x" by blast
        show ?thesis
        proof (cases "node x = v")
          case True
          with gw le [of gw] vs have "gn + 1 + manhattan_distance (node x) e \<le> fst x" by auto
          with True show ?thesis by (simp add: G)
        next
          case False
          with gw show ?thesis by (simp add: G)
        qed
      next
        case False
        with x have "x = (gn + 1 + manhattan_distance v e, counter st + 1, v)" unfolding O by simp
        then show ?thesis by (simp add: G node_def)
      qed
    qed
    show "s \<in> closed_set ?st \<or> (\<exists>c. (0, c, s) \<in> set (open_set ?st))"
      using opt_invD(8) [OF inv] unfolding O by auto
    show "\<forall>m c. came_from ?st m = Some c \<longrightarrow>
         c \<in> closed_set ?st \<and> (\<exists>gc. g_score ?st c = Some gc \<and> g_score ?st m = Some (gc + 1))"
    proof (intro allI impI)
      fix m c assume mc: "came_from ?st m = Some c"
      show "c \<in> closed_set ?st \<and> (\<exists>gc. g_score ?st c = Some gc \<and> g_score ?st m = Some (gc + 1))"
      proof (cases "m = v")
        case True
        with mc have "c = n" by (simp add: CF)
        with True n gn nv show ?thesis by (simp add: G)
      next
        case False
        with mc have "came_from st m = Some c" by (simp add: CF)
        from opt_invD(9) [OF inv this] obtain gc where c: "c \<in> closed_set st"
          "g_score st c = Some gc" "g_score st m = Some (gc + 1)" by blast
        from c(1) v have "c \<noteq> v" by auto
        with c False show ?thesis by (simp add: G)
      qed
    qed
    show "e \<notin> closed_set ?st" using opt_invD(10) [OF inv] by simp
  qed
qed

declare explore.simps(2) [simp del]

lemma search_inv_close:
  assumes inv: "search_inv s e g {n} st"
    and n: "\<forall>v. edge g n v \<longrightarrow> (\<exists>gu gv. g_score st n = Some gu \<and> g_score st v = Some gv \<and> gv \<le> gu + 1)"
  shows "opt_inv s e g st"
  unfolding search_inv_def
proof (intro conjI)
  show "g_score st s = Some 0" by (rule opt_invD(1) [OF inv])
  show "\<forall>v gv. g_score st v = Some gv \<longrightarrow> 0 \<le> gv \<and> reach g s (nat gv) v"
    using opt_invD(2) [OF inv] by blast
  show "\<forall>v \<in> closed_set st. \<forall>gv k. g_score st v = Some gv \<longrightarrow> reach g s k v \<longrightarrow> gv \<le> int k"
    using opt_invD(3) [OF inv] by blast
  show "\<forall>u \<in> closed_set st. u \<in> dom (g_score st)" using opt_invD(4) [OF inv] by blast
  show "\<forall>u \<in> closed_set st - {}. \<forall>v. edge g u v \<longrightarrow>
         (\<exists>gu gv. g_score st u = Some gu \<and> g_score st v = Some gv \<and> gv \<le> gu + 1)"
  proof (intro ballI allI impI)
    fix u v assume u: "u \<in> closed_set st - {}" and uv: "edge g u v"
    show "\<exists>gu gv. g_score st u = Some gu \<and> g_score st v = Some gv \<and> gv \<le> gu + 1"
    proof (cases "u = n")
      case True
      with n uv show ?thesis by blast
    next
      case False
      with opt_invD(5) [OF inv _ _ uv] u show ?thesis by blast
    qed
  qed
  show "\<forall>v gv. g_score st v = Some gv \<and> v \<notin> closed_set st \<longrightarrow>
         (\<exists>f c. (f, c, v) \<in> set (open_set st) \<and> f \<le> gv + manhattan_distance v e)"
    using opt_invD(6) [OF inv] by blast
  show "\<forall>x \<in> set (open_set st).
         \<exists>gv. g_score st (node x) = Some gv \<and> (node x = s \<or> gv + manhattan_distance (node x) e \<le> fst x)"
    using opt_invD(7) [OF inv] by blast
  show "s \<in> closed_set st \<or> (\<exists>c. (0, c, s) \<in> set (open_set st))" by (rule opt_invD(8) [OF inv])
  show "\<forall>m c. came_from st m = Some c \<longrightarrow>
         c \<in> closed_set st \<and> (\<exists>gc. g_score st c = Some gc \<and> g_score st m = Some (gc + 1))"
    using opt_invD(9) [OF inv] by blast
  show "e \<notin> closed_set st" by (rule opt_invD(10) [OF inv])
qed

lemma explore_search_inv:
  assumes "explore n e nbs st = Inr st'" and "search_inv s e g {n} st"
    and "n \<in> closed_set st" and "g_score st n = Some gn" and "\<forall>v \<in> set nbs. edge g n v"
  shows "search_inv s e g {n} st' \<and> g_score st' n = Some gn
       \<and> (\<forall>v \<in> set nbs. \<exists>gv. g_score st' v = Some gv \<and> gv \<le> gn + 1)
       \<and> (\<forall>v gv. g_score st v = Some gv \<longrightarrow> (\<exists>gv'. g_score st' v = Some gv' \<and> gv' \<le> gv))"
  using assms
proof (induction nbs arbitrary: st)
  case Nil
  then show ?case by simp
next
  case (Cons v rest)
  note inv = Cons.prems(2) and n = Cons.prems(3) and gn = Cons.prems(4)
  from Cons.prems(5) have ed: "edge g n v" and edr: "\<forall>v \<in> set rest. edge g n v" by simp_all
  from opt_invD(2) [OF inv gn] have gn0: "0 \<le> gn" and rn: "reach g s (nat gn) n" by simp_all
  have keep: ?case
    if ex: "explore n e rest st = Inr st'" and gv: "g_score st v = Some gv" "gv \<le> gn + 1" for gv
  proof -
    from Cons.IH [OF ex inv n gn edr]
    have a: "search_inv s e g {n} st'" "g_score st' n = Some gn"
      "\<forall>v \<in> set rest. \<exists>gv. g_score st' v = Some gv \<and> gv \<le> gn + 1"
      and mono: "\<And>w gw. g_score st w = Some gw \<Longrightarrow> \<exists>gw'. g_score st' w = Some gw' \<and> gw' \<le> gw"
      by blast+
    from mono [OF gv(1)] gv(2) have "\<exists>gv. g_score st' v = Some gv \<and> gv \<le> gn + 1" by force
    with a mono show ?thesis by simp
  qed
  show ?case
  proof (cases "v \<in> closed_set st")
    case True
    with Cons.prems(1) have ex: "explore n e rest st = Inr st'" by (simp add: explore_Cons)
    from opt_invD(4) [OF inv True] obtain gv where gv: "g_score st v = Some gv" by auto
    from gn0 have "int (Suc (nat gn)) = gn + 1" by simp
    with opt_invD(3) [OF inv True gv reach_Suc [OF rn ed]] have "gv \<le> gn + 1" by simp
    from keep [OF ex gv this] show ?thesis .
  next
    case False
    show ?thesis
    proof (cases "case g_score st v of None \<Rightarrow> True | Some gv \<Rightarrow> gn + 1 < gv")
      case no: False
      with False gn Cons.prems(1) have ex: "explore n e rest st = Inr st'"
        by (simp add: explore_Cons)
      from no obtain gv where "g_score st v = Some gv" "gv \<le> gn + 1"
        by (auto split: option.splits)
      from keep [OF ex this] show ?thesis .
    next
      case yes: True
      let ?st = "relax n e v (gn + 1) st"
      from yes False gn Cons.prems(1) have ex: "explore n e rest ?st = Inr st'"
        by (simp add: explore_Cons)
      from n False have nv: "n \<noteq> v" by auto
      have inv2: "search_inv s e g {n} ?st" by (rule relax_search_inv [OF inv n gn False ed yes])
      have n2: "n \<in> closed_set ?st" using n by (simp add: relax_def)
      have gn2: "g_score ?st n = Some gn" using gn nv by (simp add: relax_def)
      have gv2: "g_score ?st v = Some (gn + 1)" by (simp add: relax_def)
      from Cons.IH [OF ex inv2 n2 gn2 edr]
      have a: "search_inv s e g {n} st'" "g_score st' n = Some gn"
        "\<forall>v \<in> set rest. \<exists>gv. g_score st' v = Some gv \<and> gv \<le> gn + 1"
        and mono: "\<And>w gw. g_score ?st w = Some gw \<Longrightarrow> \<exists>gw'. g_score st' w = Some gw' \<and> gw' \<le> gw"
        by blast+
      from mono [OF gv2] have v: "\<exists>gv. g_score st' v = Some gv \<and> gv \<le> gn + 1" .
      have "\<exists>gw'. g_score st' w = Some gw' \<and> gw' \<le> gw" if w: "g_score st w = Some gw" for w gw
      proof (cases "w = v")
        case True
        with w yes have "gn + 1 \<le> gw" by simp
        with mono [OF gv2] True show ?thesis by force
      next
        case False
        with w have "g_score ?st w = Some gw" by (simp add: relax_def)
        from mono [OF this] show ?thesis .
      qed
      then have "\<forall>w gw. g_score st w = Some gw \<longrightarrow> (\<exists>gw'. g_score st' w = Some gw' \<and> gw' \<le> gw)"
        by blast
      with a v show ?thesis by simp
    qed
  qed
qed

lemma explore_total:
  assumes "n \<in> closed_set st" and "g_score st n \<noteq> None"
  shows "\<exists>st'. explore n e nbs st = Inr st'"
  using assms
proof (induction nbs arbitrary: st)
  case Nil
  then show ?case by simp
next
  case (Cons v rest)
  from Cons.prems obtain gn where gn: "g_score st n = Some gn" by auto
  show ?case
  proof (cases "v \<in> closed_set st")
    case True
    with Cons show ?thesis by (simp add: explore_Cons)
  next
    case False
    with Cons.prems(1) have "n \<noteq> v" by auto
    then have "n \<in> closed_set (relax n e v (gn + 1) st)" "g_score (relax n e v (gn + 1) st) n \<noteq> None"
      using Cons.prems gn by (simp_all add: relax_def)
    from Cons.IH [OF this] Cons.IH [OF Cons.prems] False gn show ?thesis
      by (simp add: explore_Cons)
  qed
qed

lemma expansion_opt_inv:
  assumes inv: "opt_inv s e g st" and ne: "open_set st \<noteq> []"
    and n: "node (heap_min (open_set st)) \<noteq> e"
    and nbs: "get_neighbors (node (heap_min (open_set st))) g = Inr nbs"
    and ex: "explore (node (heap_min (open_set st))) e nbs
               (st\<lparr>open_set := remove1 (heap_min (open_set st)) (open_set st),
                   closed_set := insert (node (heap_min (open_set st))) (closed_set st)\<rparr>) = Inr st'"
  shows "opt_inv s e g st'"
proof -
  let ?ent = "heap_min (open_set st)"
  let ?n = "node ?ent"
  let ?st1 = "st\<lparr>open_set := remove1 ?ent (open_set st), closed_set := insert ?n (closed_set st)\<rparr>"
  have inv1: "search_inv s e g {?n} ?st1" by (rule pop_search_inv [OF inv ne n])
  have n1: "?n \<in> closed_set ?st1" by simp
  from opt_invD(4) [OF inv1 n1] obtain gn where gn: "g_score ?st1 ?n = Some gn" by auto
  from get_neighbors_set [OF nbs] have ed: "\<forall>v \<in> set nbs. edge g ?n v" by (auto simp: edge_def)
  from explore_search_inv [OF ex inv1 n1 gn ed]
  have a: "search_inv s e g {?n} st'" "g_score st' ?n = Some gn"
    "\<forall>v \<in> set nbs. \<exists>gv. g_score st' v = Some gv \<and> gv \<le> gn + 1" by blast+
  show ?thesis
  proof (rule search_inv_close [OF a(1)], intro allI impI)
    fix v assume "edge g ?n v"
    with get_neighbors_set [OF nbs] have "v \<in> set nbs" by (auto simp: edge_def)
    with a(2,3) show "\<exists>gu gv. g_score st' ?n = Some gu \<and> g_score st' v = Some gv \<and> gv \<le> gu + 1"
      by auto
  qed
qed

lemma chain_length:
  assumes h: "\<And>m c. cf m = Some c \<Longrightarrow> \<exists>gc. G c = Some gc \<and> G m = Some (gc + 1)"
  shows "successively (\<lambda>x y. cf x = Some y) q \<Longrightarrow> q \<noteq> [] \<Longrightarrow> G (last q) = Some (0::int)
         \<Longrightarrow> G (hd q) = Some (int (length q) - 1)"
proof (induction q)
  case Nil
  then show ?case by simp
next
  case (Cons x xs)
  show ?case
  proof (cases xs)
    case Nil
    with Cons.prems show ?thesis by simp
  next
    case (Cons y ys)
    with Cons.prems have xy: "cf x = Some y" and ch: "successively (\<lambda>x y. cf x = Some y) xs"
      and l: "G (last xs) = Some 0" by simp_all
    from Cons.IH [OF ch _ l] Cons have "G y = Some (int (length xs) - 1)" by simp
    with h [OF xy] show ?thesis by simp
  qed
qed

lemma astar_loop_optimal:
  assumes "astar_loop e g st = Some r"
  shows "opt_inv s e g st \<longrightarrow> path_inv s g st \<longrightarrow> passable g s \<longrightarrow>
         (case r of
            Inl err \<Rightarrow> True
          | Inr None \<Rightarrow> (\<forall>k. \<not> reach g s k e)
          | Inr (Some p) \<Rightarrow> (\<forall>k. reach g s k e \<longrightarrow> int (length p) - 1 \<le> int k))"
  using assms
proof (induction e g st r rule: astar_loop.raw_induct [rotated, consumes 1])
  case (1 loop e g st r)
  show ?case
  proof (intro impI)
    assume inv: "opt_inv s e g st" and pinv: "path_inv s g st" and ps: "passable g s"
    let ?ent = "heap_min (open_set st)"
    let ?n = "node ?ent"
    let ?st1 = "st\<lparr>open_set := remove1 ?ent (open_set st), closed_set := insert ?n (closed_set st)\<rparr>"
    let ?goal = "case r of
            Inl err \<Rightarrow> True
          | Inr None \<Rightarrow> (\<forall>k. \<not> reach g s k e)
          | Inr (Some p) \<Rightarrow> (\<forall>k. reach g s k e \<longrightarrow> int (length p) - 1 \<le> int k)"
    show ?goal
    proof (cases "open_set st = []")
      case True
      with 1(2) have r: "r = Inr None" by simp
      have "\<not> reach g s k e" for k
      proof
        assume "reach g s k e"
        from frontier [OF inv this] True opt_invD(10) [OF inv] show False by simp
      qed
      with r show ?thesis by simp
    next
      case ne: False
      show ?thesis
      proof (cases "?n = e")
        case True
        show ?thesis
        proof (cases "reconstruct (came_from st) [e]")
          case None
          with 1(2) ne True show ?thesis by (auto simp: Let_def node_def)
        next
          case (Some q)
          with 1(2) ne True have r: "r = Inr (Some (rev q))" by (simp add: Let_def node_def)
          from reconstruct_chain [OF Some]
          have c: "q \<noteq> []" "hd q = e" "successively (\<lambda>x y. came_from st x = Some y) q"
            "came_from st (last q) = None" by simp_all
          from pop_path_inv(4) [OF pinv ne] True c(2)
          have "hd q = s \<or> hd q \<in> dom (came_from st)" by simp
          from chain_to_start [OF pinv ps c(3) c(1) this c(4)] have "last q = s" by simp
          with opt_invD(1) [OF inv] have l: "g_score st (last q) = Some 0" by simp
          have "g_score st (hd q) = Some (int (length q) - 1)"
            by (rule chain_length [of "came_from st" "g_score st" q, OF _ c(3) c(1) l])
               (use opt_invD(9) [OF inv] in blast)
          with c(2) have ge: "g_score st e = Some (int (length q) - 1)" by simp
          have "int (length q) - 1 \<le> int k" if "reach g s k e" for k
            using popped_optimal [OF inv ne, of k] that True ge by simp
          with r show ?thesis by simp
        qed
      next
        case False
        show ?thesis
        proof (cases "get_neighbors ?n g")
          case (Inl err)
          with 1(2) ne False show ?thesis by (auto simp: Let_def node_def)
        next
          case (Inr nbs)
          show ?thesis
          proof (cases "explore ?n e nbs ?st1")
            case (Inl err)
            with 1(2) ne False Inr show ?thesis by (auto simp: Let_def node_def)
          next
            case ex: (Inr st')
            with 1(2) ne False Inr have lp: "loop e g st' = Some r" by (simp add: Let_def node_def)
            have inv': "opt_inv s e g st'" by (rule expansion_opt_inv [OF inv ne False Inr ex])
            from get_neighbors_set [OF Inr]
            have "\<forall>v \<in> set nbs. adjacent4 ?n v \<and> traversable g v" by auto
            from explore_path_inv [OF ex pop_path_inv(1) [OF pinv ne] pop_path_inv(3) [OF pinv ne]
                pop_path_inv(2) [OF pinv ne] this]
            have pinv': "path_inv s g st'" .
            from 1(1) [OF lp] inv' pinv' ps show ?thesis by simp
          qed
        qed
      qed
    qed
  qed
qed

lemma finite_cells: "finite {p. in_bounds g p}"
proof -
  have "{p. in_bounds g p} \<subseteq> {1..grid_width g} \<times> {1..grid_height g}"
    by (auto simp: in_bounds_def)
  then show ?thesis by (rule finite_subset) simp
qed

lemma relax_measure:
  assumes v: "in_bounds g v" and gn: "0 \<le> gn"
    and better: "case g_score st v of None \<Rightarrow> True | Some gv \<Rightarrow> gn + 1 < gv"
  shows "search_measure g (relax n e v (gn + 1) st) < search_measure g st"
proof -
  let ?st = "relax n e v (gn + 1) st"
  let ?A = "{p. in_bounds g p}"
  let ?f = "\<lambda>st p. case g_score st p of None \<Rightarrow> 0 | Some gv \<Rightarrow> nat gv"
  have G: "g_score ?st = (g_score st)(v \<mapsto> gn + 1)" by (simp add: relax_def)
  have len: "length (open_set ?st) = Suc (length (open_set st))" by (simp add: relax_def heappush_def)
  show ?thesis
  proof (cases "g_score st v")
    case None
    have eq: "{p. in_bounds g p \<and> g_score ?st p = None} = {p. in_bounds g p \<and> g_score st p = None} - {v}"
      by (auto simp: G)
    have mem: "v \<in> {p. in_bounds g p \<and> g_score st p = None}" using v None by simp
    have fin: "finite {p. in_bounds g p \<and> g_score st p = None}"
      by (rule finite_subset [OF _ finite_cells [of g]]) auto
    have "card {p. in_bounds g p \<and> g_score ?st p = None}
        < card {p. in_bounds g p \<and> g_score st p = None}"
      unfolding eq by (rule card_Diff1_less [OF fin mem])
    then show ?thesis by (simp add: search_measure_def less_prod_def)
  next
    case (Some gv)
    with better have lt: "gn + 1 < gv" by simp
    have same: "{p. in_bounds g p \<and> g_score ?st p = None} = {p. in_bounds g p \<and> g_score st p = None}"
      using Some by (auto simp: G)
    from v have vA: "v \<in> ?A" by simp
    have rest: "sum (?f ?st) (?A - {v}) = sum (?f st) (?A - {v})"
      by (rule sum.cong) (auto simp: G)
    have "score_sum g ?st = ?f ?st v + sum (?f ?st) (?A - {v})"
      unfolding score_sum_def by (rule sum.remove [OF finite_cells vA])
    moreover have "score_sum g st = ?f st v + sum (?f st) (?A - {v})"
      unfolding score_sum_def by (rule sum.remove [OF finite_cells vA])
    moreover have "?f ?st v < ?f st v" using lt gn Some by (simp add: G)
    ultimately have "score_sum g ?st < score_sum g st" using rest by simp
    then show ?thesis by (simp add: search_measure_def less_prod_def same len)
  qed
qed

lemma explore_measure:
  assumes "explore n e nbs st = Inr st'" and "\<forall>v \<in> set nbs. in_bounds g v"
    and "n \<in> closed_set st" and "g_score st n = Some gn" and "0 \<le> gn"
  shows "search_measure g st' \<le> search_measure g st"
  using assms
proof (induction nbs arbitrary: st)
  case Nil
  then show ?case by simp
next
  case (Cons v rest)
  from Cons.prems(2) have vb: "in_bounds g v" and rb: "\<forall>v \<in> set rest. in_bounds g v" by simp_all
  show ?case
  proof (cases "v \<notin> closed_set st \<and> (case g_score st v of None \<Rightarrow> True | Some gv \<Rightarrow> gn + 1 < gv)")
    case False
    with Cons.prems(1,4) have "explore n e rest st = Inr st'"
      by (auto simp: explore_Cons split: if_splits)
    from Cons.IH [OF this rb Cons.prems(3,4,5)] show ?thesis .
  next
    case True
    let ?st = "relax n e v (gn + 1) st"
    from True Cons.prems(1,4) have ex: "explore n e rest ?st = Inr st'"
      by (simp add: explore_Cons)
    from True Cons.prems(3) have "n \<noteq> v" by auto
    with Cons.prems(3,4) have "n \<in> closed_set ?st" "g_score ?st n = Some gn"
      by (simp_all add: relax_def)
    from Cons.IH [OF ex rb this Cons.prems(5)] relax_measure [OF vb Cons.prems(5), of st n e] True
    show ?thesis by simp
  qed
qed

lemma pop_measure:
  assumes "x \<in> set (open_set st)"
  shows "search_measure g (st\<lparr>open_set := remove1 x (open_set st), closed_set := C\<rparr>) < search_measure g st"
proof -
  from assms have "0 < length (open_set st)" by (rule length_pos_if_in_set)
  with assms have "length (remove1 x (open_set st)) < length (open_set st)"
    by (simp add: length_remove1)
  then show ?thesis by (simp add: search_measure_def score_sum_def less_prod_def)
qed

lemma reconstruct_terminates:
  assumes h: "\<And>m c. cf m = Some c \<Longrightarrow> \<exists>gc. G c = Some gc \<and> G m = Some (gc + 1)"
    and nn: "\<And>v gv. G v = Some gv \<Longrightarrow> (0::int) \<le> gv"
  shows "\<exists>q. reconstruct cf p = Some q"
proof (induction "case G (last p) of None \<Rightarrow> 0 | Some gv \<Rightarrow> nat gv" arbitrary: p rule: less_induct)
  case less
  show ?case
  proof (cases "cf (last p)")
    case None
    then show ?thesis by (subst reconstruct.simps) simp
  next
    case (Some c)
    from h [OF Some] obtain gc where gc: "G c = Some gc" "G (last p) = Some (gc + 1)" by blast
    from nn [OF gc(1)] have "nat gc < nat (gc + 1)" by simp
    with gc have "(case G (last (p @ [c])) of None \<Rightarrow> 0 | Some gv \<Rightarrow> nat gv)
        < (case G (last p) of None \<Rightarrow> 0 | Some gv \<Rightarrow> nat gv)" by simp
    from less [OF this] obtain q where "reconstruct cf (p @ [c]) = Some q" ..
    with Some show ?thesis by (subst reconstruct.simps) simp
  qed
qed

lemma astar_loop_terminates:
  assumes "opt_inv s e g st" and "path_inv s g st"
  shows "\<exists>r. astar_loop e g st = Some r \<and> (rectangular g \<longrightarrow> (\<exists>p. r = Inr p))"
  using assms
proof (induction "search_measure g st" arbitrary: st rule: less_induct)
  case less
  note inv = less.prems(1) and pinv = less.prems(2)
  let ?ent = "heap_min (open_set st)"
  let ?n = "node ?ent"
  let ?st1 = "st\<lparr>open_set := remove1 ?ent (open_set st), closed_set := insert ?n (closed_set st)\<rparr>"
  show ?case
  proof (cases "open_set st = []")
    case True
    then show ?thesis by (subst astar_loop.simps) simp
  next
    case ne: False
    have x: "?ent \<in> set (open_set st)" by (rule heap_min_in [OF ne])
    show ?thesis
    proof (cases "?n = e")
      case True
      have "\<exists>q. reconstruct (came_from st) [e] = Some q"
        by (rule reconstruct_terminates [of "came_from st" "g_score st"])
           (use opt_invD(9) [OF inv] opt_invD(2) [OF inv] in blast)+
      then obtain q where "reconstruct (came_from st) [e] = Some q" ..
      with ne True show ?thesis by (subst astar_loop.simps) (simp add: Let_def node_def)
    next
      case False
      show ?thesis
      proof (cases "get_neighbors ?n g")
        case (Inl err)
        with get_neighbors_total [of g ?n] have "\<not> rectangular g" by auto
        with ne False Inl show ?thesis by (subst astar_loop.simps) (simp add: Let_def node_def)
      next
        case (Inr nbs)
        from opt_invD(7) [OF inv x] obtain gn where gn: "g_score st ?n = Some gn" by blast
        from opt_invD(2) [OF inv gn] have gn0: "0 \<le> gn" by simp
        have n1: "?n \<in> closed_set ?st1" and g1: "g_score ?st1 ?n = Some gn" using gn by simp_all
        from explore_total [OF n1, of e nbs] g1 obtain st' where ex: "explore ?n e nbs ?st1 = Inr st'"
          by auto
        have inv': "opt_inv s e g st'" by (rule expansion_opt_inv [OF inv ne False Inr ex])
        from get_neighbors_set [OF Inr]
        have nb: "\<forall>v \<in> set nbs. adjacent4 ?n v \<and> traversable g v" by auto
        from explore_path_inv [OF ex pop_path_inv(1) [OF pinv ne] pop_path_inv(3) [OF pinv ne]
            pop_path_inv(2) [OF pinv ne] nb]
        have pinv': "path_inv s g st'" .
        from nb have "\<forall>v \<in> set nbs. in_bounds g v" by (simp add: traversable_def)
        from explore_measure [OF ex this n1 g1 gn0]
          pop_measure [OF x, of g "insert ?n (closed_set st)"]
        have "search_measure g st' < search_measure g st" by (rule le_less_trans)
        from less.hyps [OF this inv' pinv'] obtain r
          where "astar_loop e g st' = Some r \<and> (rectangular g \<longrightarrow> (\<exists>p. r = Inr p))" ..
        with ne False Inr ex show ?thesis by (subst astar_loop.simps) (simp add: Let_def node_def)
      qed
    qed
  qed
qed

lemma astar_init_opt_inv: "opt_inv s e g (astar_init s)"
  unfolding search_inv_def
  using manhattan_nonneg [of s e]
  by (auto simp: astar_init_def heappush_def node_def intro: reach_0)

lemma astar_path_unfold:
  "s \<noteq> e \<Longrightarrow> astar_path s e g =
     (if \<not> in_bounds g s \<or> \<not> in_bounds g e then Some (Inr None)
      else case cell_value g s of
        Inl err \<Rightarrow> Some (Inl err)
      | Inr sv \<Rightarrow>
          if sv = 0 then Some (Inr None)
          else case cell_value g e of
            Inl err \<Rightarrow> Some (Inl err)
          | Inr ev \<Rightarrow> if ev = 0 then Some (Inr None) else astar_loop e g (astar_init s))"
  by (auto simp: astar_path_def Let_def in_bounds_def cell_value_def split: sum.splits)

lemma astar_path_total:
  "\<exists>r. astar_path s e g = Some r \<and> (rectangular g \<longrightarrow> (\<exists>p. r = Inr p))"
proof (cases "s = e")
  case True
  then show ?thesis by (simp add: astar_path_def)
next
  case False
  from astar_loop_terminates [OF astar_init_opt_inv astar_init_path_inv]
  obtain r where r: "astar_loop e g (astar_init s) = Some r" "rectangular g \<longrightarrow> (\<exists>p. r = Inr p)"
    by blast
  show ?thesis
  proof (cases "in_bounds g s \<and> in_bounds g e")
    case nb: False
    with False show ?thesis by (auto simp: astar_path_unfold)
  next
    case True
    then have bs: "in_bounds g s" and be: "in_bounds g e" by simp_all
    show ?thesis
    proof (cases "rectangular g")
      case rect: True
      from cell_value_rectangular [OF rect bs] obtain sv where sv: "cell_value g s = Inr sv" ..
      from cell_value_rectangular [OF rect be] obtain ev where ev: "cell_value g e = Inr ev" ..
      from False bs be sv ev r show ?thesis by (auto simp: astar_path_unfold)
    next
      case nrect: False
      from False bs be r nrect show ?thesis
        by (auto simp: astar_path_unfold split: sum.splits)
    qed
  qed
qed

lemma walk_reach:
  "successively (grid_step g) p \<Longrightarrow> p \<noteq> [] \<Longrightarrow> reach g (hd p) (length p - 1) (last p)"
proof (induction p rule: rev_induct)
  case Nil
  then show ?case by simp
next
  case (snoc x xs)
  show ?case
  proof (cases "xs = []")
    case True
    then show ?thesis by (simp add: reach_0)
  next
    case False
    with snoc.prems(1) have s: "successively (grid_step g) xs" and st: "grid_step g (last xs) x"
      by (simp_all add: successively_append_iff)
    from st have "edge g (last xs) x" by (simp add: grid_step_def edge_def)
    from reach_Suc [OF snoc.IH [OF s False] this] False show ?thesis
      by (simp add: Suc_diff_Suc)
  qed
qed

lemma reach_traversable: "reach g s k v \<Longrightarrow> traversable g s \<Longrightarrow> traversable g v"
  by (induction rule: reach.induct) (simp_all add: edge_def)

lemma reach_prepend: "reach g b k v \<Longrightarrow> edge g a b \<Longrightarrow> reach g a (Suc k) v"
proof (induction rule: reach.induct)
  case reach_0
  then show ?case using reach.reach_Suc [OF reach.reach_0] by blast
next
  case (reach_Suc k u v)
  then show ?case using reach.reach_Suc by blast
qed

lemma adjacent4_sym: "adjacent4 a b \<Longrightarrow> adjacent4 b a"
  by (simp add: adjacent4_def manhattan_sym)

lemma reach_sym: "reach g s k v \<Longrightarrow> traversable g s \<Longrightarrow> reach g v k s"
proof (induction rule: reach.induct)
  case reach_0
  show ?case by (rule reach.reach_0)
next
  case (reach_Suc k u v)
  from reach_traversable [OF reach_Suc.hyps(1) reach_Suc.prems] reach_Suc.hyps(2)
  have "edge g v u" by (simp add: edge_def adjacent4_sym)
  from reach_prepend [OF reach_Suc.IH [OF reach_Suc.prems] this] show ?case .
qed

lemma shortest_sym:
  assumes "traversable g s" and "traversable g e"
  shows "shortest g s e = shortest g e s"
proof -
  have "reach g s k e \<longleftrightarrow> reach g e k s" for k
    using reach_sym [of g s k e] reach_sym [of g e k s] assms by blast
  then show ?thesis by (simp add: shortest_def)
qed

lemma binary_cell:
  assumes "rectangular g" and "binary_grid g" and "in_bounds g p"
  shows "cell_value g p = Inr 0 \<or> cell_value g p = Inr 1"
proof -
  let ?gy = "grid_height g - snd p"
  from assms(3) have gy: "0 \<le> ?gy" "?gy < int (length g)"
    by (auto simp: in_bounds_def grid_height_def)
  then have row: "py_index g ?gy = Inr (g ! nat ?gy)" by (simp add: py_index_def)
  from gy have mem: "g ! nat ?gy \<in> set g" by simp
  with assms(1) have len: "int (length (g ! nat ?gy)) = grid_width g"
    by (simp add: rectangular_def list_all_iff)
  from assms(3) have gx: "0 \<le> fst p - 1" "fst p - 1 < grid_width g" by (auto simp: in_bounds_def)
  with len have v: "py_index (g ! nat ?gy) (fst p - 1) = Inr (g ! nat ?gy ! nat (fst p - 1))"
    by (simp add: py_index_def)
  from gx len have "g ! nat ?gy ! nat (fst p - 1) \<in> set (g ! nat ?gy)" by simp
  with assms(2) mem have "g ! nat ?gy ! nat (fst p - 1) = 0 \<or> g ! nat ?gy ! nat (fst p - 1) = 1"
    by (auto simp: binary_grid_def list_all_iff)
  with row v show ?thesis by (auto simp: cell_value_def grid_get_def)
qed

lemma astar_path_binary:
  assumes "rectangular g" and "binary_grid g" and "s \<noteq> e"
  shows "astar_path s e g =
           (if traversable g s \<and> traversable g e then astar_loop e g (astar_init s)
            else Some (Inr None))"
proof (cases "in_bounds g s \<and> in_bounds g e")
  case False
  with assms(3) show ?thesis by (auto simp: astar_path_unfold traversable_def)
next
  case True
  with binary_cell [OF assms(1,2), of s] binary_cell [OF assms(1,2), of e] assms(3)
  show ?thesis by (auto simp: astar_path_unfold traversable_def)
qed

text \<open>What \<open>calculate_distance\<close> returns on a rectangular grid of 0 and 1.\<close>

lemma calculate_distance_value:
  assumes rect: "rectangular g" and bin: "binary_grid g"
  shows "calculate_distance s e g =
           Some (Inr (if s = e then 0
                      else if traversable g s \<and> traversable g e \<and> (\<exists>k. reach g s k e)
                           then int (shortest g s e)
                           else manhattan_distance s e))"
proof (cases "s = e")
  case True
  then show ?thesis by (simp add: calculate_distance_def astar_path_def)
next
  case False
  show ?thesis
  proof (cases "traversable g s \<and> traversable g e")
    case nt: False
    with astar_path_binary [OF rect bin False] False show ?thesis
      by (auto simp: calculate_distance_def)
  next
    case True
    then have ps: "passable g s" by (simp add: traversable_passable)
    let ?L = "astar_loop e g (astar_init s)"
    from True astar_path_binary [OF rect bin False] have ap: "astar_path s e g = ?L" by simp
    from astar_loop_terminates [OF astar_init_opt_inv astar_init_path_inv] rect
    obtain r where r: "?L = Some (Inr r)" by blast
    note opt = astar_loop_optimal [OF r, where s = s, rule_format, OF astar_init_opt_inv astar_init_path_inv ps]
    show ?thesis
    proof (cases r)
      case None
      with opt have "\<nexists>k. reach g s k e" by simp
      with None r ap False show ?thesis by (simp add: calculate_distance_def)
    next
      case (Some p)
      with opt have least: "\<And>k. reach g s k e \<Longrightarrow> int (length p) - 1 \<le> int k" by simp
      from astar_loop_path [OF r [unfolded Some], where start = s, rule_format, OF astar_init_path_inv ps refl]
      have p: "p \<noteq> []" "hd p = s" "last p = e" "successively (grid_step g) p" by simp_all
      from walk_reach [OF p(4) p(1)] p have re: "reach g s (length p - 1) e" by simp
      have "shortest g s e = length p - 1"
        unfolding shortest_def
      proof (rule Least_equality)
        show "reach g s (length p - 1) e" by (rule re)
      next
        fix k assume "reach g s k e"
        from least [OF this] show "length p - 1 \<le> k" by simp
      qed
      moreover from p(1) have "int (length p - 1) = int (length p) - 1"
        by (cases p) simp_all
      ultimately show ?thesis using re Some r ap False True
        by (auto simp: calculate_distance_def)
    qed
  qed
qed

lemma calculate_distance_sym:
  assumes "rectangular g" and "binary_grid g"
  shows "calculate_distance s e g = calculate_distance e s g"
proof -
  have "(\<exists>k. reach g s k e) \<longleftrightarrow> (\<exists>k. reach g e k s)" if "traversable g s" "traversable g e"
    using reach_sym [of g s _ e] reach_sym [of g e _ s] that by blast
  then show ?thesis
    unfolding calculate_distance_value [OF assms]
    using shortest_sym [of g s e] manhattan_sym [of s e] by auto
qed

section \<open>Rounding of floats\<close>

declare halvings.simps [simp del] doublings.simps [simp del]

lemma halvings_bounds: "1 \<le> x \<Longrightarrow> 2 ^ halvings x \<le> x \<and> x < 2 ^ Suc (halvings x)"
proof (induction x rule: halvings.induct)
  case (1 x)
  show ?case
  proof (cases "2 \<le> x")
    case True
    then have "1 \<le> x / 2" by simp
    from 1(1) [OF True this] True show ?thesis by (subst (1 2) halvings.simps) simp
  next
    case False
    with 1(2) show ?thesis by (subst (1 2) halvings.simps) simp
  qed
qed

lemma doublings_bounds:
  "0 < x \<Longrightarrow> x < 1 \<Longrightarrow> 1 \<le> x * 2 ^ doublings x \<and> x * 2 ^ doublings x < 2"
proof (induction x rule: doublings.induct)
  case (1 x)
  show ?case
  proof (cases "x * 2 < 1")
    case True
    from 1(2) have "0 < x * 2" by simp
    from 1(1) [OF _ this True] 1(2,3) show ?thesis
      by (subst (1 2) doublings.simps) (simp add: mult.assoc)
  next
    case False
    then have "doublings (x * 2) = 0" by (subst doublings.simps) simp
    with False 1(2,3) show ?thesis by (subst (1 2) doublings.simps) simp
  qed
qed

lemma expo_bounds:
  assumes "x \<noteq> 0"
  shows "2 powi expo x \<le> \<bar>x\<bar>" and "\<bar>x\<bar> < 2 powi (expo x + 1)"
proof -
  have "2 powi expo x \<le> \<bar>x\<bar> \<and> \<bar>x\<bar> < 2 powi (expo x + 1)"
  proof (cases "1 \<le> \<bar>x\<bar>")
    case True
    from halvings_bounds [OF True] True show ?thesis
      by (simp add: expo_def power_int_add)
  next
    case False
    with assms have a: "0 < \<bar>x\<bar>" "\<bar>x\<bar> < 1" by simp_all
    let ?k = "doublings \<bar>x\<bar>"
    from doublings_bounds [OF a] have b: "1 \<le> \<bar>x\<bar> * 2 ^ ?k" "\<bar>x\<bar> * 2 ^ ?k < 2" by simp_all
    have p: "(2::rat) powi (- int ?k) = 1 / 2 ^ ?k" by (simp add: power_int_minus field_simps)
    have q: "(2::rat) powi (1 - int ?k) = 2 / 2 ^ ?k" by (simp add: power_int_diff)
    from b show ?thesis using False
      by (simp add: expo_def p q field_simps)
  qed
  then show "2 powi expo x \<le> \<bar>x\<bar>" and "\<bar>x\<bar> < 2 powi (expo x + 1)" by simp_all
qed

lemma powi_less_cancel:
  assumes "(2::rat) powi m < 2 powi n"
  shows "m < n"
proof (rule ccontr)
  assume "\<not> m < n"
  then have "n \<le> m" by simp
  then have "(2::rat) powi n \<le> 2 powi m" by (rule power_int_increasing) simp
  with assms show False by simp
qed

lemma expo_unique:
  assumes lo: "2 powi e \<le> \<bar>x\<bar>" and hi: "\<bar>x\<bar> < 2 powi (e + 1)"
  shows "expo x = e"
proof -
  have "(0::rat) < 2 powi e" by simp
  then have "0 < \<bar>x\<bar>" using lo by (rule less_le_trans)
  then have nz: "x \<noteq> 0" by simp
  note b = expo_bounds [OF nz]
  from b(1) hi have "(2::rat) powi expo x < 2 powi (e + 1)" by simp
  then have "expo x < e + 1" by (rule powi_less_cancel)
  moreover from lo b(2) have "(2::rat) powi e < 2 powi (expo x + 1)" by simp
  then have "e < expo x + 1" by (rule powi_less_cancel)
  ultimately show ?thesis by simp
qed

lemma round_half_even_bounds:
  "of_int (round_half_even r) - 1 / 2 \<le> r" "r \<le> of_int (round_half_even r) + 1 / 2"
  unfolding round_half_even_def Let_def by (auto simp: not_less) linarith+

lemma round_half_even_of_int [simp]: "round_half_even (of_int n) = n"
  by (simp add: round_half_even_def)

lemma round_half_even_mono:
  assumes "r \<le> s"
  shows "round_half_even r \<le> round_half_even s"
proof (rule ccontr)
  assume "\<not> ?thesis"
  then have gt: "round_half_even s + 1 \<le> round_half_even r" by simp
  then have g: "(of_int (round_half_even s) :: rat) + 1 \<le> of_int (round_half_even r)"
    by (metis of_int_1 of_int_add of_int_le_iff)
  from round_half_even_bounds(1) [of r] round_half_even_bounds(2) [of s] assms g
  have eq: "of_int (round_half_even r) = r + 1 / 2" "of_int (round_half_even s) = s - 1 / 2"
    "r = s" "of_int (round_half_even r) = (of_int (round_half_even s) :: rat) + 1"
    by linarith+
  from eq(3) eq(4) show False by simp
qed

lemma round_half_even_ge:
  "of_int n \<le> r \<Longrightarrow> n \<le> round_half_even r"
  using round_half_even_mono [of "of_int n" r] by simp

lemma round_half_even_le:
  "r \<le> of_int n \<Longrightarrow> round_half_even r \<le> n"
  using round_half_even_mono [of r "of_int n"] by simp

lemma double_round_zero [simp]: "double_round 0 = 0"
  by (simp add: double_round_def)

lemma double_round_eval:
  assumes "2 powi e \<le> \<bar>x\<bar>" and "\<bar>x\<bar> < 2 powi (e + 1)"
  shows "double_round x = of_int (round_half_even (x / 2 powi (e - 52))) * 2 powi (e - 52)"
proof -
  have "(0::rat) < 2 powi e" by simp
  then have "0 < \<bar>x\<bar>" using assms(1) by (rule less_le_trans)
  then have "x \<noteq> 0" by simp
  with expo_unique [OF assms] show ?thesis by (simp add: double_round_def Let_def)
qed

lemma scaled_bounds:
  assumes "x \<noteq> 0"
  shows "2 ^ 52 \<le> \<bar>x / 2 powi (expo x - 52)\<bar>" and "\<bar>x / 2 powi (expo x - 52)\<bar> < 2 ^ 53"
proof -
  have q: "(2::rat) powi (expo x - 52) = 2 powi expo x / 2 ^ 52"
    by (simp add: power_int_diff)
  have h: "(2::rat) powi (expo x + 1) = 2 powi expo x * 2" by (simp add: power_int_add)
  have pos: "(0::rat) < 2 powi expo x" by simp
  from expo_bounds [OF assms] pos
  show "2 ^ 52 \<le> \<bar>x / 2 powi (expo x - 52)\<bar>" and "\<bar>x / 2 powi (expo x - 52)\<bar> < 2 ^ 53"
    unfolding q h by (simp_all add: abs_mult abs_divide field_simps)
qed

lemma double_round_pos:
  assumes "0 < x"
  shows "0 < double_round x"
proof -
  let ?q = "(2::rat) powi (expo x - 52)"
  from assms have nz: "x \<noteq> 0" by simp
  have qpos: "0 < ?q" by simp
  with assms have "0 < x / ?q" by simp
  with scaled_bounds(1) [OF nz] have "(of_int (2 ^ 52) :: rat) \<le> x / ?q" by simp
  then have "2 ^ 52 \<le> round_half_even (x / ?q)" by (rule round_half_even_ge)
  then have "0 < round_half_even (x / ?q)" by simp
  with qpos nz show ?thesis by (simp add: double_round_def Let_def)
qed

lemma double_round_neg:
  assumes "x < 0"
  shows "double_round x < 0"
proof -
  let ?q = "(2::rat) powi (expo x - 52)"
  from assms have nz: "x \<noteq> 0" by simp
  have qpos: "0 < ?q" by simp
  with assms have "x / ?q < 0" by (simp add: divide_neg_pos)
  with scaled_bounds(1) [OF nz] have "x / ?q \<le> (of_int (- (2 ^ 52)) :: rat)" by simp
  then have "round_half_even (x / ?q) \<le> - (2 ^ 52)" by (rule round_half_even_le)
  then have "round_half_even (x / ?q) < 0" by simp
  with qpos nz show ?thesis by (simp add: double_round_def Let_def mult_neg_pos)
qed

lemma double_round_eq_0_iff [simp]: "double_round x = 0 \<longleftrightarrow> x = 0"
proof (cases "x = 0")
  case True
  then show ?thesis by simp
next
  case False
  then consider "0 < x" | "x < 0" by linarith
  then have "double_round x \<noteq> 0"
  proof cases
    case 1
    from double_round_pos [OF 1] show ?thesis by simp
  next
    case 2
    from double_round_neg [OF 2] show ?thesis by simp
  qed
  with False show ?thesis by simp
qed

lemma double_round_nonneg: "0 \<le> x \<Longrightarrow> 0 \<le> double_round x"
  using double_round_pos [of x] by (cases "x = 0") (auto simp: less_imp_le)

text \<open>A number of 53 bits is its own rounding.\<close>

lemma double_round_exact:
  assumes m: "\<bar>m\<bar> < 2 ^ 53"
  shows "double_round (of_int m * 2 powi e) = of_int m * 2 powi e"
proof (cases "m = 0")
  case True
  then show ?thesis by simp
next
  case False
  let ?x = "(of_int m :: rat) * 2 powi e"
  let ?E = "expo ?x"
  from False have nz: "?x \<noteq> 0" by simp
  have "2 powi ?E \<le> \<bar>?x\<bar>" by (rule expo_bounds(1) [OF nz])
  also have "\<bar>?x\<bar> = of_int \<bar>m\<bar> * 2 powi e" by (simp add: abs_mult)
  also from m have "\<dots> < of_int (2 ^ 53) * 2 powi e"
    by (intro mult_strict_right_mono) (simp_all only: of_int_less_iff zero_less_power_int zero_less_numeral)
  also have "\<dots> = 2 powi (e + 53)" by (simp add: power_int_add)
  finally have "?E < e + 53"
    by (rule powi_less_cancel)
  then obtain k where k: "e - (?E - 52) = int k" using nonneg_int_cases [of "e - (?E - 52)"] by auto
  have "?x / 2 powi (?E - 52) = of_int m * 2 powi (e - (?E - 52))"
    by (simp add: power_int_diff)
  also have "\<dots> = of_int (m * 2 ^ k)" by (simp add: k)
  finally have sc: "?x / 2 powi (?E - 52) = of_int (m * 2 ^ k)" .
  have "double_round ?x = of_int (m * 2 ^ k) * 2 powi (?E - 52)"
    using nz by (simp add: double_round_def Let_def sc del: of_int_mult of_int_power)
  also have "\<dots> = ?x / 2 powi (?E - 52) * 2 powi (?E - 52)" by (simp only: sc)
  also have "\<dots> = ?x" by simp
  finally show ?thesis .
qed

lemma double_round_of_int: "\<bar>n\<bar> < 2 ^ 53 \<Longrightarrow> double_round (of_int n) = of_int n"
  using double_round_exact [of n 0] by simp

lemma double_round_half: "\<bar>n\<bar> < 2 ^ 53 \<Longrightarrow> double_round (of_int n / 2) = of_int n / 2"
  using double_round_exact [of n "-1"] by (simp add: power_int_minus field_simps)

lemma double_round_numeral:
  "(numeral k :: int) < 2 ^ 53 \<Longrightarrow> double_round (numeral k) = numeral k"
  using double_round_of_int [of "numeral k"] by simp

text \<open>Evaluation on fractions of numerals.\<close>

lemma floor_rat_numeral: "\<lfloor>(numeral a :: rat) / numeral b\<rfloor> = numeral a div numeral b"
  by (metis floor_divide_of_int_eq of_int_numeral)

lemma round_half_even_divide:
  assumes "0 < b"
  shows "round_half_even (of_int a / of_int b) =
           (if 2 * (a mod b) < b then a div b
            else if b < 2 * (a mod b) then a div b + 1
            else if even (a div b) then a div b else a div b + 1)"
proof -
  have f: "\<lfloor>(of_int a :: rat) / of_int b\<rfloor> = a div b" by (rule floor_divide_of_int_eq)
  have "(of_int a :: rat) = of_int (a div b) * of_int b + of_int (a mod b)"
    by (metis of_int_add of_int_mult div_mult_mod_eq)
  with assms have d: "(of_int a :: rat) / of_int b - of_int (a div b) = of_int (a mod b) / of_int b"
    by (simp add: field_simps)
  from assms have lt: "of_int (a mod b) / (of_int b :: rat) < 1 / 2 \<longleftrightarrow> 2 * (a mod b) < b"
  proof -
    have "of_int (a mod b) / (of_int b :: rat) < 1 / 2 \<longleftrightarrow> (of_int (2 * (a mod b)) :: rat) < of_int b"
      using assms by (simp add: field_simps)
    then show ?thesis by (simp only: of_int_less_iff)
  qed
  from assms have gt: "1 / 2 < of_int (a mod b) / (of_int b :: rat) \<longleftrightarrow> b < 2 * (a mod b)"
  proof -
    have "1 / 2 < of_int (a mod b) / (of_int b :: rat) \<longleftrightarrow> (of_int b :: rat) < of_int (2 * (a mod b))"
      using assms by (simp add: field_simps)
    then show ?thesis by (simp only: of_int_less_iff)
  qed
  show ?thesis unfolding round_half_even_def Let_def f d lt gt ..
qed

lemma round_half_even_numeral_divide:
  "round_half_even (numeral a / numeral b) =
           (if 2 * (numeral a mod numeral b) < (numeral b :: int) then numeral a div numeral b
            else if (numeral b :: int) < 2 * (numeral a mod numeral b) then numeral a div numeral b + 1
            else if even (numeral a div numeral b :: int) then numeral a div numeral b
            else numeral a div numeral b + 1)"
  using round_half_even_divide [of "numeral b" "numeral a"] by simp

lemma round_half_even_numeral: "round_half_even (numeral a) = numeral a"
  using round_half_even_of_int [of "numeral a"] by simp

lemmas float_eval = round_half_even_numeral_divide round_half_even_numeral floor_rat_numeral

lemma double_round_one [simp]: "double_round 1 = 1"
  using double_round_of_int [of 1] by simp

lemma double_round_numeral_half:
  "(numeral k :: int) < 2 ^ 53 \<Longrightarrow> double_round (numeral k / 2) = numeral k / 2"
  using double_round_half [of "numeral k"] by simp

lemma double_round_one_half [simp]: "double_round (1 / 2) = 1 / 2"
  using double_round_half [of 1] by simp

lemma float_mul_eq_0_iff [simp]: "float_mul x y = 0 \<longleftrightarrow> x = 0 \<or> y = 0"
  by (simp add: float_mul_def)

lemma float_mul_pos: "0 < x \<Longrightarrow> 0 < y \<Longrightarrow> 0 < float_mul x y"
  by (simp add: float_mul_def double_round_pos)

lemma float_div_nonneg: "0 \<le> x \<Longrightarrow> 0 < y \<Longrightarrow> 0 \<le> float_div x y"
  by (simp add: float_div_def double_round_nonneg)

lemma int_to_float_nonneg: "0 \<le> n \<Longrightarrow> 0 \<le> int_to_float n"
  by (simp add: int_to_float_def double_round_nonneg)

lemmas float_ops = float_mul_def float_div_def float_add_def int_to_float_def
  double_round_numeral double_round_numeral_half

section \<open>Plans of the optimizer\<close>

lemma dict_set_subset: "set (dict_set d k v) \<subseteq> insert (k, v) (set d)"
  by (induction d k v rule: dict_set.induct) auto

lemma fold_routes_origin:
  assumes "(k, r) \<in> set (fold (\<lambda>a routes. if c a then dict_set routes (key a) (val a) else routes) as acc)"
  shows "(k, r) \<in> set acc \<or> (\<exists>a \<in> set as. c a \<and> k = key a \<and> r = val a)"
  using assms
proof (induction as arbitrary: acc)
  case Nil
  then show ?case by simp
next
  case (Cons a as)
  from Cons.IH [OF Cons.prems [simplified]] dict_set_subset [of acc "key a" "val a"]
  show ?case by (auto split: if_splits)
qed

lemma extract_routes_origin:
  assumes "(k, r) \<in> set (extract_routes agents units zones V)"
  shows "\<exists>a < length agents. r = route_of agents units zones V a \<and> k = aid (agents ! a)
          \<and> assigned_units agents units zones V a \<noteq> []"
  using fold_routes_origin [OF assms [unfolded extract_routes_def]] by auto

lemma route_of_pick:
  assumes "p \<in> set (r_products (route_of agents units zones V a))"
  shows "\<exists>i < length units. is_var agents units zones i a \<and> v_assign V i a \<and> p = make_pick units V a i"
  using assms by (auto simp: route_of_def Let_def assigned_products_def assigned_units_def)

lemma route_of_agent [simp]: "r_agent (route_of agents units zones V a) = agents ! a"
  by (simp add: route_of_def Let_def)

lemma make_pick_data [simp]:
  "u_product_data (make_pick units V a i) = u_product_data (units ! i)"
  "u_product_id (make_pick units V a i) = u_product_id (units ! i)"
  "visit_time (make_pick units V a i) = v_visit V i"
  "trip_number (make_pick units V a i) = v_trip V i a"
  by (simp_all add: make_pick_def)

lemma optimize_routes_success:
  assumes "optimize_routes orders products agents dd zones ans = Inr res"
    and "agents_routes res = Some routes"
  shows "\<exists>units. products_to_pick orders products = Inr units
          \<and> routes = extract_routes agents units zones (snd ans)
          \<and> (fst ans = OPTIMAL \<or> fst ans = FEASIBLE) \<and> status res = ''success''"
  using assms by (auto simp: optimize_routes_def split: sum.splits if_splits)

lemma robot_food_unhandled:
  "atype ag = ''robot'' \<Longrightarrow> category p = ''food'' \<Longrightarrow> \<not> can_agent_handle_product ag p zones"
  by (simp add: can_agent_handle_product_def)

text \<open>
  C10. In every plan \<open>optimize_routes\<close> returns, no unit of category food is on the route
  of an agent of type robot; \<open>can_agent_handle_product\<close> is false for every robot and
  food product, so the pair has no assignment variable.
\<close>

theorem no_food_on_robots:
  assumes "optimize_routes orders products agents dd zones ans = Inr res"
    and "agents_routes res = Some routes"
  shows "(\<forall>(k, r) \<in> set routes. \<forall>p \<in> set (r_products r).
            category (u_product_data p) = ''food'' \<longrightarrow> atype (r_agent r) \<noteq> ''robot'')
         \<and> (\<forall>ag p zs. atype ag = ''robot'' \<and> category p = ''food'' \<longrightarrow>
               \<not> can_agent_handle_product ag p zs)"
proof -
  from optimize_routes_success [OF assms] obtain units
    where routes: "routes = extract_routes agents units zones (snd ans)" by blast
  have "atype (r_agent r) \<noteq> ''robot''"
    if kr: "(k, r) \<in> set routes" and p: "p \<in> set (r_products r)"
      and food: "category (u_product_data p) = ''food''" for k r p
  proof -
    from extract_routes_origin [OF kr [unfolded routes]] obtain a
      where r: "r = route_of agents units zones (snd ans) a" by blast
    from route_of_pick [OF p [unfolded r]] obtain i
      where i: "is_var agents units zones i a" "p = make_pick units (snd ans) a i" by blast
    from i food have "\<not> atype (agents ! a) = ''robot''"
      unfolding is_var_def using robot_food_unhandled by auto
    with r show ?thesis by simp
  qed
  then show ?thesis using robot_food_unhandled by blast
qed

lemma sum_of_bool_filter:
  "(\<Sum>x\<leftarrow>xs. of_bool (P x)) = int (length (filter P xs))"
  by (induction xs) simp_all

lemma sum_of_bool_one_ex:
  "(\<Sum>x\<leftarrow>xs. of_bool (P x)) = (1::int) \<Longrightarrow> \<exists>x \<in> set xs. P x"
proof (rule ccontr)
  assume one: "(\<Sum>x\<leftarrow>xs. of_bool (P x)) = (1::int)" and no: "\<not> (\<exists>x \<in> set xs. P x)"
  from no have "filter P xs = []" by (simp add: filter_empty_conv)
  then have "(\<Sum>x\<leftarrow>xs. of_bool (P x)) = (0::int)" by (simp add: sum_of_bool_filter)
  with one show False by simp
qed

lemma sum_of_bool_one_unique:
  assumes "(\<Sum>x\<leftarrow>xs. of_bool (P x)) = (1::int)" and "distinct xs"
    and "a \<in> set xs" "P a" "b \<in> set xs" "P b"
  shows "a = b"
proof (rule ccontr)
  assume "a \<noteq> b"
  with assms(3-6) have "{a, b} \<subseteq> set (filter P xs)" by simp
  then have "card {a, b} \<le> card (set (filter P xs))" by (intro card_mono) simp_all
  also have "\<dots> = length (filter P xs)" using assms(2) by (intro distinct_card) simp
  finally show False using \<open>a \<noteq> b\<close> assms(1) by (simp add: sum_of_bool_filter)
qed

lemma solver_sound_blocks:
  assumes "solver_sound agents units dd zones ans"
  shows "answer_satisfies (unique_assignment agents units zones) ans"
    and "answer_satisfies (robot_zone_constraints agents units zones) ans"
    and "answer_satisfies (timing_constraints agents units dd zones) ans"
  using assms by (simp_all add: solver_sound_def answer_satisfies_def cp_model_def)

text \<open>
  C1 (amended). In every successful plan whose values satisfy the two assignment blocks
  of the model (each unit on exactly one agent; a robot for the units of the robot zone
  that have a robot variable), a unit whose product location is in
  \<open>robot_accessible_storage\<close> and whose product some robot of the fleet can handle
  (\<open>can_agent_handle_product\<close>) is on the route of an agent of type robot. No other
  constraint of the model is used.
\<close>

theorem robot_zone_units_on_robots:
  assumes res: "optimize_routes orders products agents dd zones ans = Inr res"
    and units: "products_to_pick orders products = Inr units"
    and unique: "answer_satisfies (unique_assignment agents units zones) ans"
    and zoned: "answer_satisfies (robot_zone_constraints agents units zones) ans"
    and routes: "agents_routes res = Some routes"
    and kr: "(k, r) \<in> set routes" and p: "p \<in> set (r_products r)"
    and zone: "location (u_product_data p) \<in> set zones"
    and robot: "\<exists>b < length agents. atype (agents ! b) = ''robot''
                 \<and> can_agent_handle_product (agents ! b) (u_product_data p) zones"
  shows "atype (r_agent r) = ''robot''"
proof -
  let ?V = "snd ans"
  from optimize_routes_success [OF res routes] units
  have rs: "routes = extract_routes agents units zones ?V"
    and ok: "fst ans = OPTIMAL \<or> fst ans = FEASIBLE" by auto
  from unique ok have ua: "unique_assignment agents units zones ?V"
    by (simp add: answer_satisfies_def)
  from zoned ok have rz: "robot_zone_constraints agents units zones ?V"
    by (simp add: answer_satisfies_def)
  from extract_routes_origin [OF kr [unfolded rs]] obtain a
    where a: "a < length agents" and r: "r = route_of agents units zones ?V a" by blast
  from route_of_pick [OF p [unfolded r]] obtain i
    where i: "i < length units" "is_var agents units zones i a" "v_assign ?V i a"
      "p = make_pick units ?V a i" by blast
  from robot i(4) obtain b where b: "b < length agents" "atype (agents ! b) = ''robot''"
    "is_var agents units zones i b" by (auto simp: is_var_def)
  let ?ra = "var_agents agents units zones i (robot_indices agents)"
  let ?valid = "var_agents agents units zones i [0..<length agents]"
  from b have "b \<in> set ?ra" by (simp add: var_agents_def robot_indices_def)
  then have ne: "?ra \<noteq> []" by auto
  from rz i(1) zone i(4) ne have "(\<Sum>a\<leftarrow>?ra. of_bool (v_assign ?V i a)) = (1::int)"
    by (simp add: robot_zone_constraints_def Let_def)
  from sum_of_bool_one_ex [OF this] obtain c where c: "c \<in> set ?ra" "v_assign ?V i c" by blast
  then have c': "c \<in> set ?valid" "atype (agents ! c) = ''robot''"
    by (auto simp: var_agents_def robot_indices_def)
  from a i(2) have a': "a \<in> set ?valid" by (simp add: var_agents_def)
  then have "?valid \<noteq> []" by auto
  with ua i(1) have one: "(\<Sum>a\<leftarrow>?valid. of_bool (v_assign ?V i a)) = (1::int)"
    by (simp add: unique_assignment_def Let_def)
  have "distinct ?valid" by (simp add: var_agents_def)
  from sum_of_bool_one_unique [OF one this a' i(3) c'(1) c(2)] have "a = c" .
  with c'(2) r show ?thesis by simp
qed

lemma insort_key_map:
  "insort_key k (f x) (map f xs) = map f (insort_key (\<lambda>x. k (f x)) x xs)"
  by (induction xs) simp_all

lemma sort_key_map: "sort_key k (map f xs) = map f (sort_key (\<lambda>x. k (f x)) xs)"
  by (induction xs) (simp_all add: insort_key_map)

lemma travel_time_pos:
  assumes "0 \<le> d" and "0 < s"
  shows "1 \<le> travel_time d (float_mul s 60)"
proof -
  from assms(2) have "0 < float_mul s 60" by (simp add: float_mul_pos)
  moreover from assms(1) have "0 \<le> int_to_float (d * METERS_PER_CELL)"
    by (simp add: int_to_float_nonneg METERS_PER_CELL_def)
  ultimately have "0 \<le> float_div (int_to_float (d * METERS_PER_CELL)) (float_mul s 60)"
    by (simp add: float_div_nonneg)
  then show ?thesis by (simp add: travel_time_def py_int_def)
qed

lemma distance_cases_nonneg:
  "\<forall>key d. dd key = Some d \<longrightarrow> 0 \<le> d \<Longrightarrow> 0 \<le> distance_cases dd p q"
  by (simp add: distance_cases_def split: option.splits)

lemma timing_same_trip:
  assumes tc: "timing_constraints agents units dd zones V"
    and a: "a < length agents" and x: "x < length units" and y: "y < length units"
    and xy: "x \<noteq> y"
    and vx: "is_var agents units zones x a" and vy: "is_var agents units zones y a"
    and ax: "v_assign V x a" and ay: "v_assign V y a"
    and trip: "v_trip V x a = v_trip V y a"
    and le: "v_visit V x \<le> v_visit V y"
    and sp: "0 < speed (agents ! a)"
    and nn: "\<forall>key d. dd key = Some d \<longrightarrow> 0 \<le> d"
  shows "v_visit V y \<ge> v_visit V x
           + travel_time (distance_cases dd (u_product_id (units ! x)) (u_product_id (units ! y)))
               (float_mul (speed (agents ! a)) 60)
           + PICKING_TIME"
proof -
  from tc a x y xy vx vy have pxy: "timing_pair agents units dd V a x y"
    and pyx: "timing_pair agents units dd V a y x"
    by (auto simp: timing_constraints_def)
  from pxy ax ay have bxy: "v_both V x y a" by (auto simp: timing_pair_def)
  from pyx ax ay have byx: "v_both V y x a" by (auto simp: timing_pair_def)
  from pxy bxy trip have sxy: "v_same_trip V x y a" by (auto simp: timing_pair_def)
  from pyx byx trip have syx: "v_same_trip V y x a" by (auto simp: timing_pair_def)
  note tyx = travel_time_pos [OF distance_cases_nonneg [OF nn] sp,
      of "u_product_id (units ! y)" "u_product_id (units ! x)"]
  show ?thesis
  proof (cases "v_before V x y a")
    case True
    with pxy sxy show ?thesis by (simp add: timing_pair_def)
  next
    case False
    with pxy bxy have "v_before V y x a" by (auto simp: timing_pair_def split: if_splits)
    with pyx syx have "v_visit V x \<ge> v_visit V y
        + travel_time (distance_cases dd (u_product_id (units ! y)) (u_product_id (units ! x)))
            (float_mul (speed (agents ! a)) 60) + PICKING_TIME"
      by (simp add: timing_pair_def)
    with tyx le show ?thesis by (simp add: PICKING_TIME_def)
  qed
qed

lemma assigned_products_nth:
  assumes "i < j" and "j < length (assigned_products agents units zones V a)"
  shows "\<exists>x y. x \<noteq> y \<and> x < length units \<and> y < length units
          \<and> is_var agents units zones x a \<and> is_var agents units zones y a
          \<and> v_assign V x a \<and> v_assign V y a
          \<and> assigned_products agents units zones V a ! i = make_pick units V a x
          \<and> assigned_products agents units zones V a ! j = make_pick units V a y
          \<and> (v_trip V x a, v_visit V x) \<le> (v_trip V y a, v_visit V y)"
proof -
  let ?key = "\<lambda>p::pick. (trip_number p, visit_time p)"
  let ?mk = "make_pick units V a"
  let ?km = "\<lambda>i. ?key (?mk i)"
  let ?idx = "sort_key ?km (assigned_units agents units zones V a)"
  have ps: "assigned_products agents units zones V a = map ?mk ?idx"
    by (simp add: assigned_products_def sort_key_map)
  from assms ps have j: "j < length ?idx" and i: "i < length ?idx" by simp_all
  have d: "distinct ?idx" by (simp add: assigned_units_def)
  with i j assms(1) have ne: "?idx ! i \<noteq> ?idx ! j" by (simp add: nth_eq_iff_index_eq)
  from i j have mem: "?idx ! i \<in> set (assigned_units agents units zones V a)"
    "?idx ! j \<in> set (assigned_units agents units zones V a)"
    by (metis nth_mem set_sort)+
  have "sorted (map ?km ?idx)" by (rule sorted_sort_key)
  with assms(1) j have "?km (?idx ! i) \<le> ?km (?idx ! j)"
    by (simp add: sorted_iff_nth_mono del: sorted_sort_key)
  then have le: "(v_trip V (?idx ! i) a, v_visit V (?idx ! i)) \<le> (v_trip V (?idx ! j) a, v_visit V (?idx ! j))"
    by simp
  show ?thesis
    apply (rule exI [of _ "?idx ! i"], rule exI [of _ "?idx ! j"])
    using ne mem le i j by (simp add: ps assigned_units_def)
qed

text \<open>
  C4 (amended). In every successful plan whose values satisfy the timing block of the
  model, for two picks of one route in the same trip, the later in the route is visited
  at least \<open>int(d * 3 / (speed * 60)) + 1 + PICKING_TIME\<close> minutes after the earlier,
  where \<open>d\<close> is the tabulated distance between their products, \<open>PICKING_TIME = 1\<close>, and
  the product \<open>speed * 60\<close> and the quotient are those of Python floats, each rounded
  to binary64; speeds are positive and tabulated distances are not negative.
\<close>

theorem same_trip_spacing:
  assumes res: "optimize_routes orders products agents dd zones ans = Inr res"
    and units: "products_to_pick orders products = Inr units"
    and timing: "answer_satisfies (timing_constraints agents units dd zones) ans"
    and routes: "agents_routes res = Some routes"
    and kr: "(k, r) \<in> set routes"
    and ij: "i < j" "j < length (r_products r)"
    and trip: "trip_number (r_products r ! i) = trip_number (r_products r ! j)"
    and sp: "0 < speed (r_agent r)"
    and nn: "\<forall>key d. dd key = Some d \<longrightarrow> 0 \<le> d"
  shows "visit_time (r_products r ! j) \<ge> visit_time (r_products r ! i)
           + py_int (float_div
                (int_to_float (distance_cases dd (u_product_id (r_products r ! i))
                                                 (u_product_id (r_products r ! j)) * 3))
                (float_mul (speed (r_agent r)) 60))
           + 1 + PICKING_TIME
         \<and> PICKING_TIME = 1"
proof -
  let ?V = "snd ans"
  from optimize_routes_success [OF res routes] units
  have rs: "routes = extract_routes agents units zones ?V"
    and ok: "fst ans = OPTIMAL \<or> fst ans = FEASIBLE" by auto
  from timing ok have tc: "timing_constraints agents units dd zones ?V"
    by (simp add: answer_satisfies_def)
  from extract_routes_origin [OF kr [unfolded rs]] obtain a
    where a: "a < length agents" and r: "r = route_of agents units zones ?V a" by blast
  have ps: "r_products r = assigned_products agents units zones ?V a"
    by (simp add: r route_of_def Let_def)
  from assigned_products_nth [OF ij(1) ij(2) [unfolded ps]] obtain x y
    where xy: "x \<noteq> y" "x < length units" "y < length units"
      "is_var agents units zones x a" "is_var agents units zones y a"
      "v_assign ?V x a" "v_assign ?V y a"
      and px: "r_products r ! i = make_pick units ?V a x"
      and py: "r_products r ! j = make_pick units ?V a y"
      and le: "(v_trip ?V x a, v_visit ?V x) \<le> (v_trip ?V y a, v_visit ?V y)"
    unfolding ps by blast
  from trip px py have teq: "v_trip ?V x a = v_trip ?V y a" by simp
  with le have vle: "v_visit ?V x \<le> v_visit ?V y" by simp
  from sp r have sp': "0 < speed (agents ! a)" by simp
  from timing_same_trip [OF tc a xy(2,3,1,4,5,6,7) teq vle sp' nn]
  show ?thesis unfolding px py
    by (simp add: r PICKING_TIME_def travel_time_def METERS_PER_CELL_def)
qed

subsection \<open>The small instance\<close>

lemmas ex_defs = ex_agents_def ex_robot_def ex_human_def ex_products_def ex_p1_def ex_p2_def
  ex_p3_def ex_zones_def ex_orders_def ex_dd_def ex_units_def ex_unit_def ex_V_def

lemma ex_products_to_pick: "products_to_pick ex_orders ex_products = Inr ex_units"
  by (simp add: products_to_pick_def product_dict_def ex_defs)

lemma upt3: "[0..<3] = [0, 1, 2]" "[0..<2] = [0, 1]" "[Suc 0..<3] = [1, 2]" "[2..<3] = [2]"
  "[3..<3] = []"
  by (simp_all add: upt_rec)

lemma ex_var_units:
  "var_units ex_agents ex_units ex_zones 0 = [0]"
  "var_units ex_agents ex_units ex_zones (Suc 0) = [0, 1, 2]"
  by (simp_all add: var_units_def is_var_def can_agent_handle_product_def ex_defs upt3)

lemma ex_domains: "domains ex_agents ex_units ex_zones ex_V"
  unfolding domains_def
  by (simp add: ex_var_units ex_agents_def ex_units_def upt3)
     (simp add: ex_V_def TIME_START_def TIME_END_def MAX_TRIPS_def)


lemma ex_is_var_simps:
  "is_var ex_agents ex_units ex_zones 0 0"
  "\<not> is_var ex_agents ex_units ex_zones (Suc 0) 0"
  "\<not> is_var ex_agents ex_units ex_zones 2 0"
  "is_var ex_agents ex_units ex_zones i (Suc 0)"
  by (simp_all add: is_var_def can_agent_handle_product_def ex_defs)

lemma ex_var_agents:
  "var_agents ex_agents ex_units ex_zones 0 [0, Suc 0] = [0, Suc 0]"
  "var_agents ex_agents ex_units ex_zones (Suc 0) [0, Suc 0] = [Suc 0]"
  "var_agents ex_agents ex_units ex_zones 2 [0, Suc 0] = [Suc 0]"
  "var_agents ex_agents ex_units ex_zones 0 [0] = [0]"
  "var_agents ex_agents ex_units ex_zones (Suc 0) [0] = []"
  by (simp_all add: var_agents_def ex_is_var_simps)

lemma ex_lengths: "length ex_agents = 2" "length ex_units = 3"
  by (simp_all add: ex_agents_def ex_units_def)

lemma ex_indices:
  "robot_indices ex_agents = [0]" "human_indices ex_agents = [1]" "cart_indices ex_agents = []"
  by (simp_all add: robot_indices_def human_indices_def cart_indices_def ex_defs upt3)

lemma ex_float:
  "float_mul (3 / 2) 60 = 90" "int_to_float 3 = 3" "int_to_float 0 = 0"
  "py_int (float_div 3 90) = 0" "py_int (float_div 0 90) = 0"
proof -
  show "float_mul (3 / 2) 60 = 90" "int_to_float 3 = 3" "int_to_float 0 = 0"
    "py_int (float_div 0 90) = 0"
    by (simp_all add: float_ops py_int_def)
  have "float_div 3 90 = double_round (1 / 30)" by (simp add: float_div_def)
  also have "\<dots> = 4803839602528529 / 2 ^ 57"
    by (subst double_round_eval [of "-5"]) (simp_all add: float_eval)
  finally have e: "float_div 3 90 = 4803839602528529 / 2 ^ 57" .
  show "py_int (float_div 3 90) = 0" unfolding e by (simp add: py_int_def float_eval)
qed

lemma ex_timing: "timing_constraints ex_agents ex_units ex_dd ex_zones ex_V"
  unfolding timing_constraints_def ex_lengths upt3
  by (simp add: ex_is_var_simps)
     (simp add: timing_pair_def ex_defs travel_time_def distance_cases_def ex_float
        METERS_PER_CELL_def PICKING_TIME_def)

lemma ex_unique: "unique_assignment ex_agents ex_units ex_zones ex_V"
  unfolding unique_assignment_def ex_lengths upt3
  by (simp add: ex_var_agents Let_def) (simp add: ex_V_def)

lemma ex_robot_zone: "robot_zone_constraints ex_agents ex_units ex_zones ex_V"
  unfolding robot_zone_constraints_def ex_lengths upt3 ex_indices
  by (simp add: ex_var_agents Let_def) (simp add: ex_defs)

lemma trips_upto: "[1..MAX_TRIPS] = [1, 2, 3, 4, 5, 6, 7, 8, 9, 10, 11, 12, 13, 14, 15]"
  by (simp add: MAX_TRIPS_def upto_rec1 upto.simps)

lemma ex_weight: "weight_capacity ex_agents ex_units ex_zones ex_V"
  unfolding weight_capacity_def ex_lengths upt3
  by (simp add: ex_var_units in_trip_reified_def MAX_TRIPS_def)
     (simp add: ex_defs py_int_def float_ops)

lemma ex_volume: "volume_capacity ex_agents ex_units ex_zones ex_V"
  unfolding volume_capacity_def ex_lengths upt3
  by (simp add: ex_var_units in_trip_reified_def MAX_TRIPS_def)
     (simp add: ex_defs py_int_def)

lemma ex_incompat: "incompatibility ex_agents ex_units ex_zones ex_V"
  unfolding incompatibility_def ex_lengths upt3
  by (simp add: upt3) (simp add: ex_defs)

lemma ex_deadlines: "deadlines ex_units ex_V"
  unfolding deadlines_def ex_lengths upt3
  by (simp add: ex_defs time_to_minutes_def)

lemma ex_priorities: "priorities ex_agents ex_units ex_zones ex_V"
  unfolding priorities_def ex_lengths upt3
  by (simp add: ex_units_def ex_unit_def)

lemma ex_agents_used: "agents_used ex_agents ex_units ex_zones ex_V"
  unfolding agents_used_def ex_lengths upt3
  by (simp add: ex_var_units) (simp add: ex_V_def)

lemma ex_cart_pairing: "cart_pairing ex_agents ex_V"
  unfolding cart_pairing_def ex_indices
  by (simp add: ex_V_def)

lemma ex_end_times: "end_times ex_agents ex_units ex_zones ex_V"
  unfolding end_times_def ex_lengths upt3
  by (simp add: ex_var_units) (simp add: ex_V_def TIME_START_def)

lemma ex_cp_model: "cp_model ex_agents ex_units ex_dd ex_zones ex_V"
  unfolding cp_model_def
  by (intro conjI ex_domains ex_timing ex_unique ex_robot_zone ex_weight ex_volume
      ex_incompat ex_deadlines ex_priorities ex_agents_used ex_cart_pairing ex_end_times)


lemma ex_solver_sound: "solver_sound ex_agents ex_units ex_dd ex_zones (OPTIMAL, ex_V)"
  by (simp add: solver_sound_def ex_cp_model)

lemma ex_not_raises: "\<not> timing_raises ex_agents ex_units ex_zones"
  unfolding timing_raises_def ex_lengths upt3
  by (simp add: ex_is_var_simps) (simp add: ex_defs)

lemma py_sum_simps: "py_sum [x] = double_round x" "py_sum [x, y] = float_add (double_round x) y"
  by (simp_all add: py_sum_def float_add_def)

lemma ex_assigned_units:
  "assigned_units ex_agents ex_units ex_zones ex_V 0 = [0]"
  "assigned_units ex_agents ex_units ex_zones ex_V (Suc 0) = [Suc 0, 2]"
  unfolding assigned_units_def ex_lengths upt3
  by (simp_all add: ex_is_var_simps) (simp_all add: ex_V_def)

lemma ex_extract_routes:
  "extract_routes ex_agents ex_units ex_zones ex_V = [(''R1'', ex_route_robot), (''H1'', ex_route_human)]"
  unfolding extract_routes_def ex_lengths upt3
  by (simp add: ex_assigned_units route_of_def assigned_products_def Let_def)
     (simp add: ex_defs make_pick_def ex_route_robot_def ex_route_human_def ex_pick_def
        py_sum_simps float_ops)

lemma ex_optimize_routes:
  "optimize_routes ex_orders ex_products ex_agents ex_dd ex_zones (OPTIMAL, ex_V) = Inr ex_result"
  by (simp add: optimize_routes_def ex_products_to_pick ex_not_raises ex_extract_routes
      extract_pairing_def ex_indices ex_result_def)

lemma ex_food_unit_forced:
  assumes "cp_model ex_agents ex_units ex_dd ex_zones V"
  shows "v_assign V 1 1"
proof -
  from assms have "unique_assignment ex_agents ex_units ex_zones V" by (simp add: cp_model_def)
  then show ?thesis
    unfolding unique_assignment_def ex_lengths upt3
    by (simp add: ex_var_agents Let_def split: if_splits)
qed

text \<open>
  The food unit stored in the robot zone: no robot can take it, the robot-zone constraint
  is skipped for it (\<open>if robot_assignments\<close>), and the human carries it.
\<close>

theorem robot_zone_counterexample:
  "solver_sound ex_agents ex_units ex_dd ex_zones (OPTIMAL, ex_V)
   \<and> optimize_routes ex_orders ex_products ex_agents ex_dd ex_zones (OPTIMAL, ex_V) = Inr ex_result
   \<and> status ex_result = ''success''
   \<and> agents_routes ex_result = Some [(''R1'', ex_route_robot), (''H1'', ex_route_human)]
   \<and> r_products ex_route_human = [ex_pick ex_p2 3, ex_pick ex_p3 5]
   \<and> location (u_product_data (ex_pick ex_p2 3)) \<in> set ex_zones
   \<and> atype (r_agent ex_route_human) \<noteq> ''robot''"
  by (simp add: ex_solver_sound ex_optimize_routes)
     (simp add: ex_result_def ex_route_human_def ex_pick_def ex_p2_def ex_zones_def ex_human_def)

theorem robot_zone_units_on_robots_witness:
  "location (u_product_data (ex_pick ex_p1 4)) \<in> set ex_zones
   \<and> can_agent_handle_product (ex_agents ! 0) (u_product_data (ex_pick ex_p1 4)) ex_zones
   \<and> atype (r_agent ex_route_robot) = ''robot''"
proof -
  have routes: "agents_routes ex_result = Some [(''R1'', ex_route_robot), (''H1'', ex_route_human)]"
    by (simp add: ex_result_def)
  have kr: "(''R1'', ex_route_robot) \<in> set [(''R1'', ex_route_robot), (''H1'', ex_route_human)]"
    by simp
  have p: "ex_pick ex_p1 4 \<in> set (r_products ex_route_robot)"
    by (simp add: ex_route_robot_def)
  have zone: "location (u_product_data (ex_pick ex_p1 4)) \<in> set ex_zones"
    by (simp add: ex_pick_def ex_p1_def ex_zones_def)
  have can: "can_agent_handle_product (ex_agents ! 0) (u_product_data (ex_pick ex_p1 4)) ex_zones"
    by (simp add: can_agent_handle_product_def ex_defs ex_pick_def)
  have robot: "\<exists>b < length ex_agents. atype (ex_agents ! b) = ''robot''
      \<and> can_agent_handle_product (ex_agents ! b) (u_product_data (ex_pick ex_p1 4)) ex_zones"
    using can by (intro exI [of _ 0]) (simp add: ex_agents_def ex_robot_def)
  note blocks = solver_sound_blocks [OF ex_solver_sound]
  from robot_zone_units_on_robots [OF ex_optimize_routes ex_products_to_pick blocks(1,2)
      routes kr p zone robot] zone can
  show ?thesis by simp
qed

theorem no_food_on_robots_witness:
  "category (u_product_data (ex_pick ex_p2 3)) = ''food''
   \<and> ex_pick ex_p2 3 \<in> set (r_products ex_route_human)
   \<and> atype (r_agent ex_route_human) \<noteq> ''robot''"
proof -
  have routes: "agents_routes ex_result = Some [(''R1'', ex_route_robot), (''H1'', ex_route_human)]"
    by (simp add: ex_result_def)
  have food: "category (u_product_data (ex_pick ex_p2 3)) = ''food''"
    by (simp add: ex_pick_def ex_p2_def)
  have p: "ex_pick ex_p2 3 \<in> set (r_products ex_route_human)"
    by (simp add: ex_route_human_def)
  from no_food_on_robots [OF ex_optimize_routes routes] food p
  show ?thesis by auto
qed

subsection \<open>Two values of the float arithmetic\<close>

text \<open>
  \<open>int(1.001 * 1000)\<close> is 1000, not 1001; and at speed 0.13 a distance of 13 cells
  gives \<open>int(39 / (0.13 * 60)) + 1 = 5\<close>, the product being the float above 7.8.
\<close>

lemma float_weight_grams: "py_int (float_mul (double_round (1001 / 1000)) 1000) = 1000"
proof -
  have w: "double_round (1001 / 1000) = 4508103226997866 / 2 ^ 52"
    by (subst double_round_eval [of 0]) (simp_all add: float_eval)
  have m: "float_mul (4508103226997866 / 2 ^ 52) 1000 = 8804889115230207 / 2 ^ 43"
    unfolding float_mul_def by (subst double_round_eval [of 9]) (simp_all add: float_eval)
  show ?thesis unfolding w m by (simp add: py_int_def float_eval)
qed

lemma float_travel_time: "travel_time 13 (float_mul (double_round (13 / 100)) 60) = 5"
proof -
  have s: "double_round (13 / 100) = 4683743612465316 / 2 ^ 55"
    by (subst double_round_eval [of "-3"]) (simp_all add: float_eval)
  have m: "float_mul (4683743612465316 / 2 ^ 55) 60 = 8782019273372468 / 2 ^ 50"
    unfolding float_mul_def by (subst double_round_eval [of 2]) (simp_all add: float_eval)
  have n: "int_to_float (13 * 3) = 39" by (simp add: float_ops)
  have q: "float_div 39 (8782019273372468 / 2 ^ 50) = 5629499534213119 / 2 ^ 50"
    unfolding float_div_def by (subst double_round_eval [of 2]) (simp_all add: float_eval)
  show ?thesis
    unfolding travel_time_def METERS_PER_CELL_def s m n q by (simp add: py_int_def float_eval)
qed

subsection \<open>The slow agent\<close>

lemmas far_defs = far_human_def far_products_def far_product_def far_orders_def far_dd_def
  far_units_def far_unit_def far_V_def

lemma far_speed: "speed far_human = 5584463537939415 / 2 ^ 54"
  unfolding far_human_def
  by (simp, subst double_round_eval [of "-2"]) (simp_all add: float_eval)

lemma far_speed_60: "float_mul (speed far_human) 60 = 5235434566818202 / 2 ^ 48"
  unfolding far_speed float_mul_def
  by (subst double_round_eval [of 4]) (simp_all add: float_eval)

lemma far_quotient:
  "float_div (int_to_float (93 * 3)) (float_mul (speed far_human) 60) = 8444249301319679 / 2 ^ 49"
proof -
  have "int_to_float (93 * 3) = 279" by (simp add: float_ops)
  then show ?thesis
    unfolding far_speed_60 float_div_def
    by (simp, subst double_round_eval [of 3]) (simp_all add: float_eval)
qed

lemma far_travel_time: "travel_time 93 (float_mul (speed far_human) 60) = 15"
  unfolding travel_time_def METERS_PER_CELL_def far_quotient
  by (simp add: py_int_def float_eval)

lemma far_exact_floor: "\<lfloor>of_int (93 * 3) / (speed far_human * 60)\<rfloor> = 15"
  by (simp add: far_speed float_eval)

lemma far_products_to_pick: "products_to_pick far_orders far_products = Inr far_units"
  by (simp add: products_to_pick_def product_dict_def far_defs)

lemma far_lengths: "length [far_human] = 1" "length far_units = 2"
  by (simp_all add: far_units_def)

lemma upt2: "[0..<1] = [0]" "[0..<2] = [0, 1]" "[Suc 0..<2] = [1]" "[2..<2] = []"
  by (simp_all add: upt_rec)

lemma far_is_var: "is_var [far_human] far_units zs i 0"
  by (simp add: is_var_def can_agent_handle_product_def far_human_def)

lemma far_var_units: "var_units [far_human] far_units [] 0 = [0, 1]"
  by (simp add: var_units_def far_is_var far_lengths upt2)

lemma far_var_agents:
  "var_agents [far_human] far_units [] i [0] = [0]"
  "var_agents [far_human] far_units [] i [] = []"
  by (simp_all add: var_agents_def far_is_var)

lemma far_indices:
  "robot_indices [far_human] = []" "human_indices [far_human] = [0]" "cart_indices [far_human] = []"
  by (simp_all add: robot_indices_def human_indices_def cart_indices_def far_human_def)

lemma far_distance: "distance_cases far_dd ''F1'' ''F2'' = 93"
  by (simp add: distance_cases_def far_dd_def)

lemma far_timing: "timing_constraints [far_human] far_units far_dd [] far_V"
  unfolding timing_constraints_def far_lengths upt2
  by (simp add: far_is_var)
     (simp add: timing_pair_def far_units_def far_unit_def far_distance far_travel_time
        far_V_def PICKING_TIME_def)

lemma far_domains: "domains [far_human] far_units [] far_V"
  unfolding domains_def far_lengths upt2
  by (simp add: far_var_units) (simp add: far_V_def TIME_START_def TIME_END_def MAX_TRIPS_def)

lemma far_unique: "unique_assignment [far_human] far_units [] far_V"
  unfolding unique_assignment_def far_lengths upt2
  by (simp add: far_var_agents Let_def) (simp add: far_V_def)

lemma far_robot_zone: "robot_zone_constraints [far_human] far_units [] far_V"
  by (simp add: robot_zone_constraints_def)

lemma far_weight: "weight_capacity [far_human] far_units [] far_V"
  unfolding weight_capacity_def far_lengths upt2
  by (simp add: far_var_units in_trip_reified_def MAX_TRIPS_def)
     (simp add: far_defs py_int_def float_ops)

lemma far_volume: "volume_capacity [far_human] far_units [] far_V"
  unfolding volume_capacity_def far_lengths upt2
  by (simp add: far_var_units in_trip_reified_def MAX_TRIPS_def)
     (simp add: far_defs py_int_def)

lemma far_incompat: "incompatibility [far_human] far_units [] far_V"
  unfolding incompatibility_def far_lengths upt2
  by (simp add: upt2) (simp add: far_defs)

lemma far_deadlines: "deadlines far_units far_V"
  unfolding deadlines_def far_lengths upt2
  by (simp add: far_defs time_to_minutes_def)

lemma far_priorities: "priorities [far_human] far_units [] far_V"
  unfolding priorities_def far_lengths upt2
  by (simp add: far_units_def far_unit_def)

lemma far_agents_used: "agents_used [far_human] far_units [] far_V"
  unfolding agents_used_def far_lengths upt2
  by (simp add: far_var_units) (simp add: far_V_def)

lemma far_cart_pairing: "cart_pairing [far_human] far_V"
  unfolding cart_pairing_def far_indices
  by (simp add: far_V_def)

lemma far_end_times: "end_times [far_human] far_units [] far_V"
  unfolding end_times_def far_lengths upt2
  by (simp add: far_var_units) (simp add: far_V_def TIME_START_def)

lemma far_cp_model: "cp_model [far_human] far_units far_dd [] far_V"
  unfolding cp_model_def
  by (intro conjI far_domains far_timing far_unique far_robot_zone far_weight far_volume
      far_incompat far_deadlines far_priorities far_agents_used far_cart_pairing far_end_times)

lemma far_solver_sound: "solver_sound [far_human] far_units far_dd [] (OPTIMAL, far_V)"
  by (simp add: solver_sound_def far_cp_model)

lemma far_speed_pos: "0 < speed far_human"
  by (simp add: far_speed)

lemma far_not_raises: "\<not> timing_raises [far_human] far_units []"
  using far_speed_pos by (simp add: timing_raises_def)

lemma far_assigned_units: "assigned_units [far_human] far_units [] far_V 0 = [0, 1]"
  unfolding assigned_units_def far_lengths upt2
  by (simp add: far_is_var) (simp add: far_V_def)

lemma far_extract_routes: "extract_routes [far_human] far_units [] far_V = [(''H9'', far_route)]"
  unfolding extract_routes_def far_lengths upt2
  by (simp add: far_assigned_units route_of_def assigned_products_def Let_def)
     (simp add: far_units_def far_unit_def far_V_def far_product_def make_pick_def far_route_def
        far_pick_def py_sum_simps float_ops far_human_def)

lemma far_optimize_routes:
  "optimize_routes far_orders far_products [far_human] far_dd [] (OPTIMAL, far_V) = Inr far_result"
  by (simp add: optimize_routes_def far_products_to_pick far_not_raises far_extract_routes
      extract_pairing_def far_indices far_result_def)

text \<open>
  On the slow agent the plan satisfies every constraint and leaves 16 minutes between
  the two visits of its trip, while the claim's bound, with the exact floor, is 17:
  \<open>0.31 * 60\<close> is the float nearest to 18.6, which lies above it, so the float quotient
  of 279 by it is below 15.
\<close>

theorem same_trip_spacing_counterexample:
  "solver_sound [far_human] far_units far_dd [] (OPTIMAL, far_V)
   \<and> optimize_routes far_orders far_products [far_human] far_dd [] (OPTIMAL, far_V) = Inr far_result
   \<and> status far_result = ''success''
   \<and> agents_routes far_result = Some [(''H9'', far_route)]
   \<and> r_products far_route = [far_pick ''F1'' (1, 1) 0, far_pick ''F2'' (94, 1) 16]
   \<and> trip_number (r_products far_route ! 0) = trip_number (r_products far_route ! 1)
   \<and> distance_cases far_dd (u_product_id (r_products far_route ! 0))
        (u_product_id (r_products far_route ! 1)) = 93
   \<and> visit_time (r_products far_route ! 1)
       < visit_time (r_products far_route ! 0)
         + \<lfloor>of_int (93 * 3) / (speed (r_agent far_route) * 60)\<rfloor> + 1 + PICKING_TIME
   \<and> (16::int) < 0 + \<lfloor>(93 * 3) / ((31 / 100) * 60 :: rat)\<rfloor> + 1 + 1"
  using far_exact_floor
  by (simp add: far_solver_sound far_optimize_routes far_result_def far_route_def far_pick_def
      far_distance PICKING_TIME_def float_eval)

theorem same_trip_spacing_witness:
  "r_products far_route = [far_pick ''F1'' (1, 1) 0, far_pick ''F2'' (94, 1) 16]
   \<and> distance_cases far_dd ''F1'' ''F2'' = 93
   \<and> py_int (float_div (int_to_float (93 * 3)) (float_mul (speed far_human) 60)) = 14
   \<and> (16::int) \<ge> 0 + 14 + 1 + 1"
proof -
  have routes: "agents_routes far_result = Some [(''H9'', far_route)]"
    by (simp add: far_result_def)
  have kr: "(''H9'', far_route) \<in> set [(''H9'', far_route)]" by simp
  have ps: "r_products far_route = [far_pick ''F1'' (1, 1) 0, far_pick ''F2'' (94, 1) 16]"
    by (simp add: far_route_def)
  have j: "1 < length (r_products far_route)" by (simp add: ps)
  have trip: "trip_number (r_products far_route ! 0) = trip_number (r_products far_route ! 1)"
    by (simp add: ps far_pick_def)
  have sp: "0 < speed (r_agent far_route)" using far_speed_pos by (simp add: far_route_def)
  have nn: "\<forall>key d. far_dd key = Some d \<longrightarrow> 0 \<le> d" by (simp add: far_dd_def)
  have q: "py_int (float_div (int_to_float (93 * 3)) (float_mul (speed far_human) 60)) = 14"
    unfolding far_quotient by (simp add: py_int_def float_eval)
  note timing = solver_sound_blocks(3) [OF far_solver_sound]
  from same_trip_spacing [OF far_optimize_routes far_products_to_pick timing routes kr
      zero_less_one j trip sp nn] far_distance ps q
  show ?thesis by simp
qed

section \<open>Results of the pipeline\<close>

section \<open>Dictionaries\<close>

lemma dict_get_dict_set [simp]:
  "dict_get (dict_set d k v) k' = (if k' = k then Some v else dict_get d k')"
  by (induction d k v rule: dict_set.induct) (auto simp: dict_get_def)

lemma keys_dict_set [simp]: "fst ` set (dict_set d k v) = insert k (fst ` set d)"
  by (induction d k v rule: dict_set.induct) auto

lemma and_then_returns [simp]: "and_then (returns x) f = f x"
  by (simp add: and_then_def returns_def)

lemma and_then_Some_Inr [simp]: "and_then (Some (Inr x)) f = f x"
  by (simp add: and_then_def)

lemma and_then_eq_returns:
  "and_then m f = Some (Inr y) \<longleftrightarrow> (\<exists>x. m = Some (Inr x) \<and> f x = Some (Inr y))"
  by (auto simp: and_then_def split: option.splits sum.splits)

section \<open>The status check after the solver\<close>

lemma late_products_to_pick: "products_to_pick (py_prefix late_orders 1) ex_products = Inr late_units"
  by (simp add: products_to_pick_def product_dict_def py_prefix_def late_orders_def late_units_def ex_defs)

lemma late_not_raises: "\<not> timing_raises ex_agents late_units ex_zones"
  by (simp add: timing_raises_def late_units_def)

lemma late_infeasible: "\<not> cp_model ex_agents late_units dd ex_zones V"
  by (auto simp: cp_model_def domains_def deadlines_def late_units_def time_to_minutes_def
      TIME_START_def)

lemma for_each_returns:
  assumes "\<And>x s. x \<in> set xs \<Longrightarrow> \<exists>s'. body x s = Some (Inr s')"
  shows "\<exists>s'. for_each xs body s = Some (Inr s')"
  using assms

proof (induction xs arbitrary: s)
  case Nil
  then show ?case by (simp add: returns_def)

next
  case (Cons x xs)
  from Cons.prems [of x s] obtain s1 where "body x s = Some (Inr s1)" by auto
  moreover from Cons.IH [of s1] Cons.prems obtain s2 where "for_each xs body s1 = Some (Inr s2)"
    by auto
  ultimately show ?case by simp

qed

lemma matrix_returns:
  assumes "\<And>p q. \<exists>d. point_distance g p q = Some (Inr d)"
  shows "\<exists>dmat. calculate_distance_matrix products E g = Some (Inr dmat)
           \<and> dd_locations dmat = build_locations products E"

proof -
  have "\<exists>s'. for_each (build_locations products E)
           (\<lambda>from_item. for_each (build_locations products E)
              (\<lambda>to_item distances.
                 and_then (point_distance g (snd from_item) (snd to_item))
                   (\<lambda>dist. returns (dict_set distances (fst from_item, fst to_item) dist)))) s
         = Some (Inr s')" for s
  proof (rule for_each_returns, rule for_each_returns)
    fix x y :: "string \<times> pos" and s :: "((string \<times> string) \<times> int) list"
    from assms [of "snd x" "snd y"] obtain d where "point_distance g (snd x) (snd y) = Some (Inr d)" ..
    then show "\<exists>s'. and_then (point_distance g (snd x) (snd y))
        (\<lambda>dist. returns (dict_set s (fst x, fst y) dist)) = Some (Inr s')"
      by (simp add: returns_def)
  qed
  then obtain ds where "for_each (build_locations products E)
           (\<lambda>from_item. for_each (build_locations products E)
              (\<lambda>to_item distances.
                 and_then (point_distance g (snd from_item) (snd to_item))
                   (\<lambda>dist. returns (dict_set distances (fst from_item, fst to_item) dist)))) []
         = Some (Inr ds)" by blast
  then show ?thesis by (simp add: calculate_distance_matrix_def Let_def returns_def)

qed

lemma manhattan_matrix_returns:
  "\<exists>dmat. calculate_distance_matrix products E None = Some (Inr dmat)"
  using matrix_returns [of None] by (simp add: point_distance_def returns_def) blast

section \<open>The collision loop\<close>

lemma initial_routes_delays:
  assumes "item \<in> set (initial_routes routes)"
  shows "snd (snd item) = 0"

proof -
  have "\<forall>item \<in> set acc. snd (snd item) = 0 \<Longrightarrow>
        \<forall>item \<in> set (fold (\<lambda>item acc. dict_set acc (fst item) (r_products (snd item), 0)) rs acc).
           snd (snd item) = (0::int)" for rs and acc :: delayed_routes
  proof (induction rs arbitrary: acc)
    case Nil
    then show ?case by simp
  next
    case (Cons r rs)
    have "\<forall>item \<in> set (dict_set acc (fst r) (r_products (snd r), 0)). snd (snd item) = (0::int)"
      using Cons.prems dict_set_subset [of acc "fst r" "(r_products (snd r), 0)"] by auto
    from Cons.IH [OF this] show ?case by simp
  qed
  from this [of "[]" routes] assms show ?thesis by (simp add: initial_routes_def)

qed

lemma fixed_point:
  assumes comp: "compute_all_trajectories agents (assign_depots (map fst routes)) E g
                   (initial_routes routes) = Some (Inr (trajs, dps))"
    and none: "detect_collisions trajs = []"
  shows "check_and_adjust_collisions routes agents E mi g =
          Some (Inr \<lparr>cr_trajectories = trajs, cr_collisions = [],
                     cr_delays = map (\<lambda>item. (fst item, 0)) (initial_routes routes),
                     cr_depot_positions = dps,
                     cr_depot_assignments = assign_depots (map fst routes),
                     cr_iterations = (if 0 < mi then 1 else 0)\<rparr>)"

proof -
  let ?dep = "assign_depots (map fst routes)"
  let ?r0 = "initial_routes routes"
  have it: "iteration agents ?dep E g ?r0 = Some (Inr None)"
    by (simp add: iteration_def comp none returns_def)
  have lp: "resolve_loop agents ?dep E g (nat mi) 0 ?r0 = Some (Inr (?r0, if 0 < mi then 1 else 0))"
  proof (cases "nat mi")
    case 0
    then show ?thesis by (simp add: returns_def)
  next
    case (Suc n)
    then have "0 < mi" by simp
    with Suc it show ?thesis by (simp add: returns_def)
  qed
  have d: "map (\<lambda>item. (fst item, snd (snd item))) ?r0 = map (\<lambda>item. (fst item, 0)) ?r0"
    by (rule map_cong) (simp_all add: initial_routes_delays)
  show ?thesis
    by (simp add: check_and_adjust_collisions_def Let_def lp comp none d returns_def)

qed

lemma distinct_keys_dict_set:
  "distinct (map fst d) \<Longrightarrow> distinct (map fst (dict_set d k v))"
  by (induction d k v rule: dict_set.induct) (auto simp: image_iff)

lemma map_fst_dict_set_present:
  "k \<in> fst ` set d \<Longrightarrow> map fst (dict_set d k v) = map fst d"
  by (induction d k v rule: dict_set.induct) auto

lemma dict_get_Some_mem: "dict_get d k = Some v \<Longrightarrow> (k, v) \<in> set d"
  by (simp add: dict_get_def map_of_SomeD)

lemma dict_get_distinct:
  "distinct (map fst d) \<Longrightarrow> (k, v) \<in> set d \<Longrightarrow> dict_get d k = Some v"
  by (simp add: dict_get_def)

lemma count_of_count_up: "count_of (count_up d b) a = count_of d a + (if a = b then 1 else 0)"
  by (simp add: count_of_def count_up_def)

lemma count_up_pos: "0 \<le> count_of d b \<Longrightarrow> dict_get (count_up d b) b = Some (count_of d b + 1)"
  by (simp add: count_of_def count_up_def)

lemma distinct_count_up: "distinct (map fst d) \<Longrightarrow> distinct (map fst (count_up d b))"
  by (simp add: count_up_def distinct_keys_dict_set)

lemma dict_get_count_up_other: "a \<noteq> b \<Longrightarrow> dict_get (count_up d b) a = dict_get d a"
  by (simp add: count_up_def)

lemma dict_get_count_up_same: "dict_get (count_up d b) b = Some (count_of d b + 1)"
  by (simp add: count_up_def count_of_def)

lemma counts_ok_count_up:
  assumes "counts_ok d"
  shows "counts_ok (count_up d b)"

proof -
  from assms have d: "distinct (map fst d)" and pos: "\<forall>x \<in> set d. 0 < snd x"
    by (simp_all add: counts_ok_def)
  have nn: "0 \<le> count_of d b"
    using pos by (auto simp: count_of_def split: option.splits dest!: dict_get_Some_mem)
  have "set (count_up d b) \<subseteq> insert (b, count_of d b + 1) (set d)"
    unfolding count_up_def count_of_def by (rule dict_set_subset)
  with pos nn have "\<forall>x \<in> set (count_up d b). 0 < snd x" by auto
  with d show ?thesis by (simp add: counts_ok_def distinct_count_up)

qed

lemma fold_counts:
  assumes "counts_ok acc"
  shows "counts_ok (fold (\<lambda>c counts. count_up (count_up counts (fst c)) (fst (snd c))) cs acc)
       \<and> count_of (fold (\<lambda>c counts. count_up (count_up counts (fst c)) (fst (snd c))) cs acc) a
           = count_of acc a + participations cs a"
  using assms

proof (induction cs arbitrary: acc)
  case Nil
  then show ?case by (simp add: participations_def)

next
  case (Cons c cs)
  have ok: "counts_ok (count_up (count_up acc (fst c)) (fst (snd c)))"
    by (intro counts_ok_count_up Cons.prems)
  from Cons.IH [OF ok] show ?case
    by (simp add: count_of_count_up participations_def)

qed

lemma collision_counts_ok: "counts_ok (collision_counts cs)"
  and collision_counts_of: "count_of (collision_counts cs) a = participations cs a"
  using fold_counts [of "[]" cs a]
  by (simp_all add: collision_counts_def counts_ok_def count_of_def dict_get_def)

lemma first_greatestI:
  "d = pre @ (k, c) # post \<Longrightarrow> \<forall>x \<in> set pre. snd x < c \<Longrightarrow> \<forall>x \<in> set post. snd x \<le> c
   \<Longrightarrow> first_greatest d k"
  unfolding first_greatest_def by blast

lemma max_key_loop_first_greatest:
  "first_greatest (best # rest) (max_key_loop best rest)"

proof (induction rest arbitrary: best)
  case Nil
  show ?case by (rule first_greatestI [of _ "[]" _ "snd best" "[]"]) simp_all

next
  case (Cons kv rest)
  show ?case
  proof (cases "snd kv > snd best")
    case True
    then have k: "max_key_loop best (kv # rest) = max_key_loop kv rest" by simp
    from Cons.IH [of kv] obtain pre c post
      where e: "kv # rest = pre @ (max_key_loop kv rest, c) # post"
        and p: "\<forall>x \<in> set pre. snd x < c" and q: "\<forall>x \<in> set post. snd x \<le> c"
      unfolding first_greatest_def by blast
    have "snd kv \<le> c"
    proof (cases pre)
      case Nil
      with e have "kv # rest = (max_key_loop kv rest, c) # post" by (simp only: append_Nil)
      then have "kv = (max_key_loop kv rest, c)" by (rule list.inject [THEN iffD1, THEN conjunct1])
      then have "snd kv = c" by (metis snd_conv)
      then show ?thesis by simp
    next
      case (Cons x xs)
      with e have "x = kv" by simp
      with p Cons show ?thesis by simp
    qed
    with True have b: "snd best < c" by simp
    have e': "best # kv # rest = (best # pre) @ (max_key_loop kv rest, c) # post"
      using e by simp
    from p b have p': "\<forall>x \<in> set (best # pre). snd x < c" by simp
    show ?thesis unfolding k by (rule first_greatestI [OF e' p' q])
  next
    case False
    then have k: "max_key_loop best (kv # rest) = max_key_loop best rest" by simp
    from Cons.IH [of best] obtain pre c post
      where e: "best # rest = pre @ (max_key_loop best rest, c) # post"
        and p: "\<forall>x \<in> set pre. snd x < c" and q: "\<forall>x \<in> set post. snd x \<le> c"
      unfolding first_greatest_def by blast
    show ?thesis
    proof (cases pre)
      case Nil
      with e have e0: "best # rest = (max_key_loop best rest, c) # post" by (simp only: append_Nil)
      then have b: "best = (max_key_loop best rest, c)"
        by (rule list.inject [THEN iffD1, THEN conjunct1])
      from e0 have r: "rest = post" by (rule list.inject [THEN iffD1, THEN conjunct2])
      from b have "snd best = c" by (metis snd_conv)
      with False have kc: "snd kv \<le> c" by simp
      have e': "best # kv # rest = [] @ (max_key_loop best rest, c) # (kv # post)"
        using b r by (metis append_Nil)
      from q kc have q': "\<forall>x \<in> set (kv # post). snd x \<le> c" by simp
      show ?thesis unfolding k by (rule first_greatestI [OF e' _ q']) simp
    next
      case (Cons x xs)
      with e have e0: "best # rest = x # (xs @ (max_key_loop best rest, c) # post)"
        by (simp only: append_Cons)
      then have x: "x = best" by (rule list.inject [THEN iffD1, THEN conjunct1, symmetric])
      from e0 have r: "rest = xs @ (max_key_loop best rest, c) # post"
        by (rule list.inject [THEN iffD1, THEN conjunct2])
      from p Cons x have "snd best < c" by simp
      with False have kc: "snd kv < c" by simp
      have e': "best # kv # rest = (best # kv # xs) @ (max_key_loop best rest, c) # post"
        using r by (metis append_Cons)
      from p Cons x kc have p': "\<forall>x \<in> set (best # kv # xs). snd x < c" by simp
      show ?thesis unfolding k by (rule first_greatestI [OF e' p' q])
    qed
  qed

qed

lemma py_max_key_first_greatest: "py_max_key d = Inr k \<Longrightarrow> first_greatest d k"
  by (auto simp: py_max_key_def max_key_loop_first_greatest split: list.splits)

lemma first_greatest_participations:
  assumes "first_greatest (collision_counts cs) v"
  shows "participations cs a \<le> participations cs v"

proof -
  from assms obtain pre c post where e: "collision_counts cs = pre @ (v, c) # post"
    and p: "\<forall>x \<in> set pre. snd x < c" and q: "\<forall>x \<in> set post. snd x \<le> c"
    unfolding first_greatest_def by blast
  note ok = collision_counts_ok [of cs]
  then have d: "distinct (map fst (collision_counts cs))" and pos: "\<forall>x \<in> set (collision_counts cs). 0 < snd x"
    by (simp_all add: counts_ok_def)
  from e have "(v, c) \<in> set (collision_counts cs)" by simp
  from dict_get_distinct [OF d this] have v: "participations cs v = c"
    by (simp add: collision_counts_of [symmetric] count_of_def)
  from pos e have "0 < c" by auto
  show ?thesis
  proof (cases "dict_get (collision_counts cs) a")
    case None
    then have "participations cs a = 0" by (simp add: collision_counts_of [symmetric] count_of_def)
    with v \<open>0 < c\<close> show ?thesis by simp
  next
    case (Some n)
    then have n: "participations cs a = n" by (simp add: collision_counts_of [symmetric] count_of_def)
    from dict_get_Some_mem [OF Some] have "(a, n) \<in> set (collision_counts cs)" .
    with e p q have "n \<le> c" by (auto simp: less_imp_le)
    with n v show ?thesis by simp
  qed

qed

lemma iteration_step:
  assumes "iteration agents depots E g rwd = Some (Inr (Some rwd'))"
  shows "\<exists>trajs dps victim ps d0.
           compute_all_trajectories agents depots E g rwd = Some (Inr (trajs, dps))
         \<and> detect_collisions trajs \<noteq> []
         \<and> py_max_key (collision_counts (detect_collisions trajs)) = Inr victim
         \<and> dict_get rwd victim = Some (ps, d0)
         \<and> rwd' = dict_set rwd victim (ps, d0 + 2)"

proof -
  from assms obtain res where c: "compute_all_trajectories agents depots E g rwd = Some (Inr res)"
    and r: "(let collisions = detect_collisions (fst res) in
          if length collisions = 0 then returns None
          else case py_max_key (collision_counts collisions) of
                 Inl e \<Rightarrow> raises e
               | Inr most_colliding_agent \<Rightarrow>
                   (case add_delay rwd most_colliding_agent of
                      Inl e \<Rightarrow> raises e
                    | Inr routes' \<Rightarrow> returns (Some routes'))) = Some (Inr (Some rwd'))"
    unfolding iteration_def and_then_eq_returns by blast
  from r have ne: "detect_collisions (fst res) \<noteq> []"
    by (auto simp: Let_def returns_def split: if_splits)
  with r obtain victim where v: "py_max_key (collision_counts (detect_collisions (fst res))) = Inr victim"
    and a: "add_delay rwd victim = Inr rwd'"
    by (auto simp: Let_def returns_def raises_def split: sum.splits)
  from a obtain rd where "dict_get rwd victim = Some rd" "rwd' = dict_set rwd victim (fst rd, snd rd + 2)"
    by (auto simp: add_delay_def split: option.splits)
  with c ne v show ?thesis
    by (intro exI [of _ "fst res"] exI [of _ "snd res"] exI [of _ victim] exI [of _ "fst rd"]
        exI [of _ "snd rd"]) simp

qed

lemma iteration_delays_even:
  assumes "iteration agents depots E g rwd = Some (Inr (Some rwd'))" and "delays_even rwd"
  shows "delays_even rwd'"

proof -
  from iteration_step [OF assms(1)] obtain victim ps d0
    where g: "dict_get rwd victim = Some (ps, d0)" and r: "rwd' = dict_set rwd victim (ps, d0 + 2)"
    by blast
  from dict_get_Some_mem [OF g] assms(2) have "0 \<le> d0 \<and> even d0" by (auto simp: delays_even_def)
  with assms(2) dict_set_subset [of rwd victim "(ps, d0 + 2)"] show ?thesis
    unfolding r delays_even_def by auto

qed

lemma resolve_loop_delays_even:
  assumes "resolve_loop agents depots E g n k rwd = Some (Inr (rwd', k'))" and "delays_even rwd"
  shows "delays_even rwd'"
  using assms

proof (induction n arbitrary: k rwd)
  case 0
  then show ?case by (simp add: returns_def)

next
  case (Suc n)
  show ?case
  proof (cases "iteration agents depots E g rwd")
    case None
    with Suc.prems show ?thesis by simp
  next
    case (Some r)
    show ?thesis
    proof (cases r)
      case (Inl e)
      with Some Suc.prems show ?thesis by simp
    next
      case (Inr opt)
      show ?thesis
      proof (cases opt)
        case None
        with Inr Some Suc.prems show ?thesis by (simp add: returns_def)
      next
        case (Some rwd1)
        with Inr \<open>iteration agents depots E g rwd = Some r\<close>
        have it: "iteration agents depots E g rwd = Some (Inr (Some rwd1))" by simp
        with Suc.prems(1) have "resolve_loop agents depots E g n (Suc k) rwd1 = Some (Inr (rwd', k'))"
          by simp
        from Suc.IH [OF this iteration_delays_even [OF it Suc.prems(2)]] show ?thesis .
      qed
    qed
  qed

qed

lemma final_delays_even:
  assumes "check_and_adjust_collisions routes agents E mi g = Some (Inr res)"
  shows "\<forall>(a, d) \<in> set (cr_delays res). 0 \<le> d \<and> even d"

proof -
  from assms obtain lp final where
    lp: "resolve_loop agents (assign_depots (map fst routes)) E g (nat mi) 0 (initial_routes routes)
          = Some (Inr lp)"
    and res: "res = \<lparr>cr_trajectories = fst final,
               cr_collisions = detect_collisions (fst final),
               cr_delays = map (\<lambda>item. (fst item, snd (snd item))) (fst lp),
               cr_depot_positions = snd final,
               cr_depot_assignments = assign_depots (map fst routes),
               cr_iterations = snd lp\<rparr>"
    unfolding check_and_adjust_collisions_def Let_def and_then_eq_returns
    by (auto simp: returns_def)
  have "delays_even (initial_routes routes)"
    by (simp add: delays_even_def initial_routes_delays)
  from resolve_loop_delays_even [OF _ this, of agents _ E g "nat mi" 0 "fst lp" "snd lp"] lp
  have "delays_even (fst lp)" by simp
  then show ?thesis by (auto simp: res delays_even_def)

qed

lemmas yard_defs = yard_h1_def yard_h2_def yard_pick_def yard_route_def yard_entry_def
  crossing_routes_def apart_routes_def

lemma yard_depots:
  "assign_depots [''H1'', ''H2''] = [(''H1'', (5, 4)), (''H2'', (6, 4))]"
  by (simp add: assign_depots_def assign_depot_def AVAILABLE_DEPOTS_def)

lemma yard_agents_dict:
  "agents_dict [yard_h1, yard_h2] ''H1'' = Some yard_h1"
  "agents_dict [yard_h1, yard_h2] ''H2'' = Some yard_h2"
  by (simp_all add: agents_dict_def yard_h1_def yard_h2_def)

lemmas walk_eval = calculate_agent_trajectory_def to_product_def to_depot_def to_entry_def
  calculate_path_def calculate_path_manhattan_def Let_def

lemma traj_h1:
  "calculate_agent_trajectory [yard_pick ''Q1'' (5, 4)] (5, 3) d None (Some (5, 4))
   = Some (Inr ([(d, (5, 4)), (d + 1, (5, 4)), (d + 2, (5, 4)), (d + 3, (5, 3)), (d + 4, (5, 3))],
                [(5, 4)]))"
  by (simp add: walk_eval yard_pick_def returns_def)

lemma traj_h2_crossing:
  "calculate_agent_trajectory [yard_pick ''Q1'' (5, 4)] (5, 3) d None (Some (6, 4))
   = Some (Inr ([(d, (5, 4)), (d + 1, (6, 4)), (d + 2, (6, 4)), (d + 3, (6, 4)), (d + 4, (5, 4)),
                 (d + 5, (5, 3)), (d + 6, (5, 3))], [(6, 4)]))"
  by (simp add: walk_eval yard_pick_def returns_def)

lemma traj_h2_apart:
  "calculate_agent_trajectory [yard_pick ''Q2'' (6, 3)] (5, 3) d None (Some (6, 4))
   = Some (Inr ([(d, (6, 3)), (d + 1, (6, 4)), (d + 2, (6, 4)), (d + 3, (6, 4)), (d + 4, (5, 4)),
                 (d + 5, (5, 3)), (d + 6, (5, 3))], [(6, 4)]))"
  by (simp add: walk_eval yard_pick_def returns_def)

lemma crossing_initial:
  "initial_routes crossing_routes =
     [(''H1'', [yard_pick ''Q1'' (5, 4)], 0), (''H2'', [yard_pick ''Q1'' (5, 4)], 0)]"
  by (simp add: initial_routes_def crossing_routes_def yard_route_def)

lemma apart_initial:
  "initial_routes apart_routes =
     [(''H1'', [yard_pick ''Q1'' (5, 4)], 0), (''H2'', [yard_pick ''Q2'' (6, 3)], 0)]"
  by (simp add: initial_routes_def apart_routes_def yard_route_def)

lemma crossing_compute:
  "compute_all_trajectories [yard_h1, yard_h2] [(''H1'', (5, 4)), (''H2'', (6, 4))] (5, 3) None
     [(''H1'', [yard_pick ''Q1'' (5, 4)], 0), (''H2'', [yard_pick ''Q1'' (5, 4)], 0)]
   = Some (Inr (crossing_trajectories, yard_depot_positions))"
  by (simp add: compute_all_trajectories_def yard_agents_dict dict_get_def
      traj_h1 [of 0, simplified] traj_h2_crossing [of 0, simplified] returns_def
      crossing_trajectories_def yard_depot_positions_def)

lemma apart_compute:
  "compute_all_trajectories [yard_h1, yard_h2] [(''H1'', (5, 4)), (''H2'', (6, 4))] (5, 3) None
     [(''H1'', [yard_pick ''Q1'' (5, 4)], 0), (''H2'', [yard_pick ''Q2'' (6, 3)], 0)]
   = Some (Inr (apart_trajectories, yard_depot_positions))"
  by (simp add: compute_all_trajectories_def yard_agents_dict dict_get_def
      traj_h1 [of 0, simplified] traj_h2_apart [of 0, simplified] returns_def
      apart_trajectories_def yard_depot_positions_def)

lemma crossing_detect: "detect_collisions crossing_trajectories = [(''H1'', ''H2'', 0, (5, 4))]"
  by (simp add: crossing_trajectories_def pair_collisions_def dict_get_def)

lemma apart_detect: "detect_collisions apart_trajectories = []"
  by (simp add: apart_trajectories_def pair_collisions_def dict_get_def)

lemma crossing_iteration:
  "iteration [yard_h1, yard_h2] [(''H1'', (5, 4)), (''H2'', (6, 4))] (5, 3) None
     [(''H1'', [yard_pick ''Q1'' (5, 4)], 0), (''H2'', [yard_pick ''Q1'' (5, 4)], 0)]
   = Some (Inr (Some crossing_delayed))"
  by (simp add: iteration_def crossing_compute crossing_detect collision_counts_def count_up_def
      py_max_key_def add_delay_def dict_get_def returns_def crossing_delayed_def)

lemma crossing_compute_delayed:
  "compute_all_trajectories [yard_h1, yard_h2] [(''H1'', (5, 4)), (''H2'', (6, 4))] (5, 3) None
     crossing_delayed
   = Some (Inr (crossing_final, yard_depot_positions))"
  by (simp add: compute_all_trajectories_def yard_agents_dict dict_get_def crossing_delayed_def
      traj_h1 [of 2, simplified] traj_h2_crossing [of 0, simplified] returns_def
      crossing_final_def yard_depot_positions_def)

lemma crossing_check:
  "check_and_adjust_collisions crossing_routes [yard_h1, yard_h2] (5, 3) 1 None
   = Some (Inr crossing_result)"

proof -
  have d: "map fst crossing_routes = [''H1'', ''H2'']" by (simp add: crossing_routes_def)
  have det: "detect_collisions crossing_final
     = [(''H1'', ''H2'', 4, (5, 4)), (''H1'', ''H2'', 5, (5, 3)), (''H1'', ''H2'', 6, (5, 3))]"
    by (simp add: crossing_final_def pair_collisions_def dict_get_def)
  have lp: "resolve_loop [yard_h1, yard_h2] [(''H1'', (5, 4)), (''H2'', (6, 4))] (5, 3) None (Suc 0) 0
     [(''H1'', [yard_pick ''Q1'' (5, 4)], 0), (''H2'', [yard_pick ''Q1'' (5, 4)], 0)]
     = Some (Inr (crossing_delayed, Suc 0))"
    by (simp add: crossing_iteration returns_def)
  show ?thesis
    by (simp add: check_and_adjust_collisions_def Let_def d yard_depots crossing_initial
        crossing_iteration crossing_compute_delayed det returns_def crossing_result_def)
       (simp add: crossing_delayed_def)

qed

lemma no_solution_gate:
  assumes "fst ans \<noteq> OPTIMAL" and "fst ans \<noteq> FEASIBLE"
    and "calculate_distance_matrix products (wh_entry_point wh) (wh_navigation_grid wh) = Some (Inr dmat)"
    and "products_to_pick (py_prefix all_orders num_orders) products = Inr units"
    and "\<not> timing_raises agents units zones"
  shows "optimize_routes (py_prefix all_orders num_orders) products agents
           (map_of (dd_distances dmat)) zones ans
         = Inr \<lparr>status = ''no_solution'', agents_routes = None, human_cart_assignments = None\<rparr>
       \<and> run_optimization wh products agents all_orders zones num_orders max_iterations ans
         = Some (Inr \<lparr>rr_status = ''error'', rr_message = Some ''Echec de l'optimisation'',
                      rr_solution = None, rr_collision_result = None\<rparr>)"
  using assms by (simp add: optimize_routes_def run_optimization_def returns_def)

text \<open>
  C2 (amended). When the solver's status is neither \<open>OPTIMAL\<close> nor \<open>FEASIBLE\<close>,
  \<open>optimize_routes\<close> returns the dictionary with the single key \<open>status\<close>, of value
  \<open>no_solution\<close>, without routes, and \<open>run_optimization\<close> returns status \<open>error\<close>
  with a message, without solution or trajectories.
\<close>

theorem no_solution_result:
  assumes "fst ans \<noteq> OPTIMAL" and "fst ans \<noteq> FEASIBLE"
    and "calculate_distance_matrix products (wh_entry_point wh) (wh_navigation_grid wh) = Some (Inr dmat)"
    and "products_to_pick (py_prefix all_orders num_orders) products = Inr units"
    and "\<not> timing_raises agents units zones"
  shows "optimize_routes (py_prefix all_orders num_orders) products agents
           (map_of (dd_distances dmat)) zones ans
         = Inr \<lparr>status = ''no_solution'', agents_routes = None, human_cart_assignments = None\<rparr>
       \<and> run_optimization wh products agents all_orders zones num_orders max_iterations ans
         = Some (Inr \<lparr>rr_status = ''error'', rr_message = Some ''Echec de l'optimisation'',
                      rr_solution = None, rr_collision_result = None\<rparr>)"
  using assms by (rule no_solution_gate)

lemma late_run:
  "run_optimization ex_warehouse ex_products ex_agents late_orders ex_zones 1 250 (INFEASIBLE, ex_V)
     = Some (Inr \<lparr>rr_status = ''error'', rr_message = Some ''Echec de l'optimisation'',
                  rr_solution = None, rr_collision_result = None\<rparr>)"

proof -
  from manhattan_matrix_returns [of ex_products "(6, 10)"] obtain dmat
    where "calculate_distance_matrix ex_products (wh_entry_point ex_warehouse)
             (wh_navigation_grid ex_warehouse) = Some (Inr dmat)"
    by (auto simp: ex_warehouse_def)
  from no_solution_gate [OF _ _ this late_products_to_pick late_not_raises, of "(INFEASIBLE, ex_V)"]
  show ?thesis by simp

qed

theorem no_solution_result_witness:
  "run_optimization ex_warehouse ex_products ex_agents late_orders ex_zones 1 250 (INFEASIBLE, ex_V)
     = Some (Inr \<lparr>rr_status = ''error'', rr_message = Some ''Echec de l'optimisation'',
                  rr_solution = None, rr_collision_result = None\<rparr>)"

proof -
  from manhattan_matrix_returns [of ex_products "(6, 10)"] obtain dmat
    where "calculate_distance_matrix ex_products (wh_entry_point ex_warehouse)
             (wh_navigation_grid ex_warehouse) = Some (Inr dmat)"
    by (auto simp: ex_warehouse_def)
  from no_solution_result [OF _ _ this late_products_to_pick late_not_raises, of "(INFEASIBLE, ex_V)"]
  show ?thesis by simp

qed

text \<open>On the late order neither function returns the status \<open>infeasible\<close>.\<close>

theorem infeasible_status_counterexample:
  "optimize_routes (py_prefix late_orders 1) ex_products ex_agents Map.empty ex_zones (INFEASIBLE, ex_V)
     = Inr \<lparr>status = ''no_solution'', agents_routes = None, human_cart_assignments = None\<rparr>
   \<and> ''no_solution'' \<noteq> ''infeasible''
   \<and> run_optimization ex_warehouse ex_products ex_agents late_orders ex_zones 1 250 (INFEASIBLE, ex_V)
     = Some (Inr \<lparr>rr_status = ''error'', rr_message = Some ''Echec de l'optimisation'',
                  rr_solution = None, rr_collision_result = None\<rparr>)
   \<and> ''error'' \<noteq> ''infeasible''"
  by (simp add: late_run optimize_routes_def late_products_to_pick late_not_raises)

text \<open>
  C5. If the trajectories built with every start delay 0 have no collision,
  \<open>check_and_adjust_collisions\<close> returns these trajectories, no collision and every
  delay 0, after one pass of its loop (none when \<open>max_iterations\<close> is not positive).
\<close>

theorem collision_fixed_point:
  assumes "compute_all_trajectories agents (assign_depots (map fst routes)) E g
             (initial_routes routes) = Some (Inr (trajs, dps))"
    and "detect_collisions trajs = []"
  shows "\<exists>res. check_and_adjust_collisions routes agents E mi g = Some (Inr res)
           \<and> cr_trajectories res = trajs \<and> cr_collisions res = []
           \<and> (\<forall>(a, d) \<in> set (cr_delays res). d = 0)
           \<and> map fst (cr_delays res) = map fst (initial_routes routes)
           \<and> cr_iterations res \<le> 1 \<and> (0 < mi \<longrightarrow> cr_iterations res = 1)"
  using fixed_point [OF assms, of mi] by (auto simp: comp_def)

theorem collision_fixed_point_witness:
  "detect_collisions apart_trajectories = []
   \<and> (\<exists>res. check_and_adjust_collisions apart_routes [yard_h1, yard_h2] (5, 3) 250 None = Some (Inr res)
           \<and> cr_trajectories res = apart_trajectories \<and> cr_collisions res = []
           \<and> (\<forall>(a, d) \<in> set (cr_delays res). d = 0)
           \<and> cr_iterations res = 1)"

proof -
  have d: "map fst apart_routes = [''H1'', ''H2'']" by (simp add: apart_routes_def)
  have c: "compute_all_trajectories [yard_h1, yard_h2] (assign_depots (map fst apart_routes)) (5, 3)
      None (initial_routes apart_routes) = Some (Inr (apart_trajectories, yard_depot_positions))"
    by (simp add: d yard_depots apart_initial apart_compute)
  from collision_fixed_point [OF c apart_detect, of 250] apart_detect
  show ?thesis by auto

qed

lemma compute_keys_loop:
  "for_each rwd_items
     (\<lambda>item acc.
        case agents_dict agents (fst item) of
          None \<Rightarrow> raises KeyError
        | Some agent \<Rightarrow>
            and_then
              (calculate_agent_trajectory (fst (snd item)) entry_point (snd (snd item))
                 navigation_grid
                 (Some (case dict_get depot_assignments (fst item) of
                          None \<Rightarrow> (6, 5) | Some d \<Rightarrow> d)))
              (\<lambda>res. returns (dict_set (fst acc) (fst item) (fst res),
                               dict_set (snd acc) (fst item) (snd res))))
     acc = Some (Inr acc')
   \<Longrightarrow> fst ` set (fst acc') = fst ` set (fst acc) \<union> fst ` set rwd_items"
proof (induction rwd_items arbitrary: acc)
  case Nil
  then show ?case by (simp add: returns_def)
next
  case (Cons item rwd_items)
  from Cons.prems obtain mid where
    step: "(case agents_dict agents (fst item) of
          None \<Rightarrow> raises KeyError
        | Some agent \<Rightarrow>
            and_then
              (calculate_agent_trajectory (fst (snd item)) entry_point (snd (snd item))
                 navigation_grid
                 (Some (case dict_get depot_assignments (fst item) of
                          None \<Rightarrow> (6, 5) | Some d \<Rightarrow> d)))
              (\<lambda>res. returns (dict_set (fst acc) (fst item) (fst res),
                               dict_set (snd acc) (fst item) (snd res)))) = Some (Inr mid)"
    and rest: "for_each rwd_items
     (\<lambda>item acc.
        case agents_dict agents (fst item) of
          None \<Rightarrow> raises KeyError
        | Some agent \<Rightarrow>
            and_then
              (calculate_agent_trajectory (fst (snd item)) entry_point (snd (snd item))
                 navigation_grid
                 (Some (case dict_get depot_assignments (fst item) of
                          None \<Rightarrow> (6, 5) | Some d \<Rightarrow> d)))
              (\<lambda>res. returns (dict_set (fst acc) (fst item) (fst res),
                               dict_set (snd acc) (fst item) (snd res))))
     mid = Some (Inr acc')"
    by (auto simp: and_then_eq_returns)
  from step obtain tr where "fst mid = dict_set (fst acc) (fst item) tr"
    by (auto simp: and_then_eq_returns returns_def raises_def split: option.splits)
  then have "fst ` set (fst mid) = insert (fst item) (fst ` set (fst acc))" by simp
  with Cons.IH [OF rest] show ?case by auto
qed

lemma compute_keys:
  assumes "compute_all_trajectories agents depots E g rwd = Some (Inr (trajs, dps))"
  shows "fst ` set trajs = fst ` set rwd"
  using compute_keys_loop [OF assms [unfolded compute_all_trajectories_def]] by simp

lemma pair_collisions_agents:
  "c \<in> set (pair_collisions a1 a2) \<Longrightarrow> fst c = fst a1 \<and> fst (snd c) = fst a2"
  by (auto simp: pair_collisions_def split: option.splits if_splits)

lemma detect_collisions_agents:
  "c \<in> set (detect_collisions trajs) \<Longrightarrow>
     fst c \<in> fst ` set trajs \<and> fst (snd c) \<in> fst ` set trajs"
proof (induction trajs)
  case Nil
  then show ?case by simp
next
  case (Cons a1 rest)
  from Cons.prems consider a2 where "a2 \<in> set rest" "c \<in> set (pair_collisions a1 a2)"
    | "c \<in> set (detect_collisions rest)" by auto
  then show ?case
  proof cases
    case 1
    from pair_collisions_agents [OF 1(2)] 1(1) show ?thesis by simp
  next
    case 2
    from Cons.IH [OF 2] show ?thesis by simp
  qed
qed

lemma participations_pos:
  assumes "0 < participations cs a"
  shows "\<exists>c \<in> set cs. fst c = a \<or> fst (snd c) = a"
proof -
  from assms have "filter (\<lambda>c. fst c = a) cs \<noteq> [] \<or> filter (\<lambda>c. fst (snd c) = a) cs \<noteq> []"
    by (auto simp: participations_def)
  then show ?thesis by (auto simp: filter_empty_conv)
qed

lemma collision_counts_keys:
  assumes "k \<in> fst ` set (collision_counts cs)"
  shows "\<exists>c \<in> set cs. fst c = k \<or> fst (snd c) = k"
proof -
  from assms obtain n where m: "(k, n) \<in> set (collision_counts cs)" by force
  from collision_counts_ok [of cs] have d: "distinct (map fst (collision_counts cs))"
    and pos: "\<forall>x \<in> set (collision_counts cs). 0 < snd x" by (simp_all add: counts_ok_def)
  from dict_get_distinct [OF d m] have "participations cs k = n"
    by (simp add: collision_counts_of [symmetric] count_of_def)
  moreover from pos m have "0 < n" by auto
  ultimately show ?thesis by (intro participations_pos) simp
qed

lemma collision_counts_nonempty:
  assumes "cs \<noteq> []"
  shows "collision_counts cs \<noteq> []"
proof
  assume e: "collision_counts cs = []"
  from assms obtain c rest where cs: "cs = c # rest" by (cases cs) auto
  have "0 < participations cs (fst c)" by (simp add: cs participations_def)
  moreover from e have "count_of (collision_counts cs) (fst c) = 0"
    by (simp add: count_of_def dict_get_def)
  ultimately show False by (simp add: collision_counts_of)
qed

lemma first_greatest_key: "first_greatest d k \<Longrightarrow> k \<in> fst ` set d"
  by (force simp: first_greatest_def)

lemma detect_then_delay:
  assumes c: "compute_all_trajectories agents depots E g rwd = Some (Inr (trajs, dps))"
    and ne: "detect_collisions trajs \<noteq> []"
  shows "\<exists>victim ps d0.
           py_max_key (collision_counts (detect_collisions trajs)) = Inr victim
         \<and> dict_get rwd victim = Some (ps, d0)
         \<and> iteration agents depots E g rwd = Some (Inr (Some (dict_set rwd victim (ps, d0 + 2))))"
proof -
  let ?cs = "detect_collisions trajs"
  from collision_counts_nonempty [OF ne] obtain victim
    where mk: "py_max_key (collision_counts ?cs) = Inr victim"
    by (cases "collision_counts ?cs") (auto simp: py_max_key_def)
  from first_greatest_key [OF py_max_key_first_greatest [OF mk]]
  have "victim \<in> fst ` set (collision_counts ?cs)" .
  from collision_counts_keys [OF this] obtain col
    where "col \<in> set ?cs" "fst col = victim \<or> fst (snd col) = victim" by blast
  with detect_collisions_agents [of col trajs] have "victim \<in> fst ` set trajs" by auto
  then have "victim \<in> fst ` set rwd" unfolding compute_keys [OF c] .
  then obtain rd where get: "dict_get rwd victim = Some rd"
    by (cases "dict_get rwd victim") (auto simp: dict_get_def map_of_eq_None_iff)
  have "iteration agents depots E g rwd = Some (Inr (Some (dict_set rwd victim (fst rd, snd rd + 2))))"
    using ne by (simp add: iteration_def c mk add_delay_def get returns_def)
  with mk get show ?thesis
    by (intro exI [of _ victim] exI [of _ "fst rd"] exI [of _ "snd rd"]) simp
qed

text \<open>
  C6. A pass of the loop whose trajectories have a collision raises the delay of exactly
  one agent, by 2: the agent \<open>max\<close> picks, whose number of participations no agent
  exceeds, the first such in the order of \<open>collision_counts\<close>; the other delays and the
  keys are unchanged. A pass without collision leaves the loop and raises no delay. Every
  delay \<open>check_and_adjust_collisions\<close> returns is even and not negative.
\<close>

theorem delay_steps:
  "(compute_all_trajectories agents depots E g rwd = Some (Inr (trajs, dps))
      \<and> detect_collisions trajs \<noteq> [] \<longrightarrow>
      (\<exists>victim ps d0 rwd'.
          iteration agents depots E g rwd = Some (Inr (Some rwd'))
        \<and> first_greatest (collision_counts (detect_collisions trajs)) victim
        \<and> (\<forall>a. participations (detect_collisions trajs) a
                 \<le> participations (detect_collisions trajs) victim)
        \<and> dict_get rwd victim = Some (ps, d0)
        \<and> dict_get rwd' victim = Some (ps, d0 + 2)
        \<and> (\<forall>a. a \<noteq> victim \<longrightarrow> dict_get rwd' a = dict_get rwd a)
        \<and> map fst rwd' = map fst rwd))
   \<and> (compute_all_trajectories agents depots E g rwd = Some (Inr (trajs, dps))
      \<and> detect_collisions trajs = [] \<longrightarrow>
        iteration agents depots E g rwd = Some (Inr None))
   \<and> (check_and_adjust_collisions routes agents E mi g = Some (Inr res) \<longrightarrow>
        (\<forall>(a, d) \<in> set (cr_delays res). 0 \<le> d \<and> even d))"
proof (intro conjI impI)
  assume "compute_all_trajectories agents depots E g rwd = Some (Inr (trajs, dps))
      \<and> detect_collisions trajs \<noteq> []"
  then have c: "compute_all_trajectories agents depots E g rwd = Some (Inr (trajs, dps))"
    and ne: "detect_collisions trajs \<noteq> []" by simp_all
  from detect_then_delay [OF c ne] obtain victim ps d0
    where mk: "py_max_key (collision_counts (detect_collisions trajs)) = Inr victim"
      and get: "dict_get rwd victim = Some (ps, d0)"
      and it: "iteration agents depots E g rwd = Some (Inr (Some (dict_set rwd victim (ps, d0 + 2))))"
    by blast
  note fg = py_max_key_first_greatest [OF mk]
  from dict_get_Some_mem [OF get] have "victim \<in> fst ` set rwd" by force
  then have keys: "map fst (dict_set rwd victim (ps, d0 + 2)) = map fst rwd"
    by (rule map_fst_dict_set_present)
  show "\<exists>victim ps d0 rwd'.
          iteration agents depots E g rwd = Some (Inr (Some rwd'))
        \<and> first_greatest (collision_counts (detect_collisions trajs)) victim
        \<and> (\<forall>a. participations (detect_collisions trajs) a
                 \<le> participations (detect_collisions trajs) victim)
        \<and> dict_get rwd victim = Some (ps, d0)
        \<and> dict_get rwd' victim = Some (ps, d0 + 2)
        \<and> (\<forall>a. a \<noteq> victim \<longrightarrow> dict_get rwd' a = dict_get rwd a)
        \<and> map fst rwd' = map fst rwd"
    apply (rule exI [of _ victim], rule exI [of _ ps], rule exI [of _ d0],
        rule exI [of _ "dict_set rwd victim (ps, d0 + 2)"])
    using it fg first_greatest_participations [OF fg] get keys by simp
next
  assume "compute_all_trajectories agents depots E g rwd = Some (Inr (trajs, dps))
      \<and> detect_collisions trajs = []"
  then show "iteration agents depots E g rwd = Some (Inr None)"
    by (simp add: iteration_def returns_def)
next
  assume "check_and_adjust_collisions routes agents E mi g = Some (Inr res)"
  then show "\<forall>(a, d) \<in> set (cr_delays res). 0 \<le> d \<and> even d" by (rule final_delays_even)
qed

theorem delay_steps_witness:
  "compute_all_trajectories [yard_h1, yard_h2] [(''H1'', (5, 4)), (''H2'', (6, 4))] (5, 3) None
     [(''H1'', [yard_pick ''Q1'' (5, 4)], 0), (''H2'', [yard_pick ''Q1'' (5, 4)], 0)]
     = Some (Inr (crossing_trajectories, yard_depot_positions))
   \<and> detect_collisions crossing_trajectories = [(''H1'', ''H2'', 0, (5, 4))]
   \<and> iteration [yard_h1, yard_h2] [(''H1'', (5, 4)), (''H2'', (6, 4))] (5, 3) None
     [(''H1'', [yard_pick ''Q1'' (5, 4)], 0), (''H2'', [yard_pick ''Q1'' (5, 4)], 0)]
     = Some (Inr (Some [(''H1'', [yard_pick ''Q1'' (5, 4)], 2), (''H2'', [yard_pick ''Q1'' (5, 4)], 0)]))
   \<and> (\<exists>victim ps d0 rwd'.
          iteration [yard_h1, yard_h2] [(''H1'', (5, 4)), (''H2'', (6, 4))] (5, 3) None
            [(''H1'', [yard_pick ''Q1'' (5, 4)], 0), (''H2'', [yard_pick ''Q1'' (5, 4)], 0)]
            = Some (Inr (Some rwd'))
        \<and> first_greatest (collision_counts (detect_collisions crossing_trajectories)) victim
        \<and> dict_get [(''H1'', [yard_pick ''Q1'' (5, 4)], 0), (''H2'', [yard_pick ''Q1'' (5, 4)], 0)] victim
            = Some (ps, d0)
        \<and> dict_get rwd' victim = Some (ps, d0 + 2))
   \<and> check_and_adjust_collisions crossing_routes [yard_h1, yard_h2] (5, 3) 1 None
     = Some (Inr crossing_result)
   \<and> (''H1'', 2) \<in> set (cr_delays crossing_result) \<and> (0::int) \<le> 2 \<and> even (2::int)"
proof -
  have m: "(''H1'', 2) \<in> set (cr_delays crossing_result)" by (simp add: crossing_result_def)
  have ne: "detect_collisions crossing_trajectories \<noteq> []" by (simp add: crossing_detect)
  from delay_steps [of "[yard_h1, yard_h2]" "[(''H1'', (5, 4)), (''H2'', (6, 4))]" "(5, 3)" None
      "[(''H1'', [yard_pick ''Q1'' (5, 4)], 0), (''H2'', [yard_pick ''Q1'' (5, 4)], 0)]"
      crossing_trajectories yard_depot_positions crossing_routes 1 crossing_result]
    crossing_compute ne crossing_check
  have "\<exists>victim ps d0 rwd'.
          iteration [yard_h1, yard_h2] [(''H1'', (5, 4)), (''H2'', (6, 4))] (5, 3) None
            [(''H1'', [yard_pick ''Q1'' (5, 4)], 0), (''H2'', [yard_pick ''Q1'' (5, 4)], 0)]
            = Some (Inr (Some rwd'))
        \<and> first_greatest (collision_counts (detect_collisions crossing_trajectories)) victim
        \<and> dict_get [(''H1'', [yard_pick ''Q1'' (5, 4)], 0), (''H2'', [yard_pick ''Q1'' (5, 4)], 0)] victim
            = Some (ps, d0)
        \<and> dict_get rwd' victim = Some (ps, d0 + 2)"
    by blast
  with crossing_compute crossing_detect crossing_iteration crossing_check m show ?thesis
    by (simp add: crossing_delayed_def)
qed

section \<open>The trajectory of an agent\<close>

lemma stamp_all_props:
  "stamp_all cs tr t = (tr', t') \<Longrightarrow>
     t' = t + int (length cs)
   \<and> fst ` set tr' = fst ` set tr \<union> {t..<t + int (length cs)}
   \<and> (\<forall>i < length cs. dict_get tr' (t + int i) = Some (cs ! i))
   \<and> (\<forall>k. k < t \<longrightarrow> dict_get tr' k = dict_get tr k)"
proof (induction cs arbitrary: tr t)
  case Nil
  then show ?case by simp
next
  case (Cons c cs)
  from Cons.prems have st: "stamp_all cs (dict_set tr t c) (t + 1) = (tr', t')" by simp
  from Cons.IH [OF st]
  have a: "t' = t + 1 + int (length cs)"
    and b: "fst ` set tr' = fst ` set (dict_set tr t c) \<union> {t + 1..<t + 1 + int (length cs)}"
    and c: "\<And>i. i < length cs \<Longrightarrow> dict_get tr' (t + 1 + int i) = Some (cs ! i)"
    and d: "\<And>k. k < t + 1 \<Longrightarrow> dict_get tr' k = dict_get (dict_set tr t c) k"
    by simp_all
  have "dict_get tr' (t + int i) = Some ((c # cs) ! i)" if "i < length (c # cs)" for i
  proof (cases i)
    case 0
    with d [of t] show ?thesis by simp
  next
    case (Suc j)
    with that c [of j] show ?thesis by (simp add: add.assoc)
  qed
  moreover have "dict_get tr' k = dict_get tr k" if "k < t" for k
    using d [of k] that by simp
  moreover have "fst ` set tr' = fst ` set tr \<union> {t..<t + int (length (c # cs))}"
    unfolding b by auto
  ultimately show ?case using a by simp
qed

lemma stamp_until_is_stamp_all: "\<exists>cs. stamp_until target path tr t = stamp_all cs tr t"
proof (induction path arbitrary: tr t)
  case Nil
  show ?case by (rule exI [of _ "[]"]) simp
next
  case (Cons x path)
  show ?case
  proof (cases "x = target")
    case True
    then show ?thesis by (intro exI [of _ "[x]"]) simp
  next
    case False
    from Cons [of "dict_set tr t x" "t + 1"] obtain cs
      where "stamp_until target path (dict_set tr t x) (t + 1) = stamp_all cs (dict_set tr t x) (t + 1)" ..
    with False show ?thesis by (intro exI [of _ "x # cs"]) simp
  qed
qed

lemma dwell_is_stamp_all:
  "dwell target visit tr t = stamp_all (replicate (nat (visit + 1 - t)) target) tr t"
proof (induction target visit tr t rule: dwell.induct)
  case (1 target visit tr t)
  show ?case
  proof (cases "t \<le> visit")
    case True
    then have "nat (visit + 1 - t) = Suc (nat (visit + 1 - (t + 1)))" by simp
    with 1 [OF True] True show ?thesis by (subst dwell.simps) simp
  next
    case False
    then show ?thesis by (subst dwell.simps) simp
  qed
qed

declare dwell.simps [simp del]

lemma dense_stamp_all:
  assumes "dense d tr t" and "stamp_all cs tr t = (tr', t')"
  shows "dense d tr' t'" and "t \<le> t'"
proof -
  from stamp_all_props [OF assms(2)]
  have a: "t' = t + int (length cs)"
    and b: "fst ` set tr' = fst ` set tr \<union> {t..<t + int (length cs)}"
    by simp_all
  from assms(1) have k: "fst ` set tr = {d..<t}" and le: "d \<le> t" by (simp_all add: dense_def)
  from a show "t \<le> t'" by simp
  from le have "fst ` set tr' = {d..<t'}" unfolding b k a by auto
  with a le show "dense d tr' t'" by (simp add: dense_def)
qed

lemma calculate_path_returns:
  assumes "grid_ok navigation"
  shows "\<exists>p. calculate_path a b navigation = Some (Inr p)"
proof (cases navigation)
  case None
  then show ?thesis by (simp add: calculate_path_def returns_def)
next
  case (Some g)
  with assms have "rectangular g" by (simp add: grid_ok_def)
  with astar_path_total [of a b g] obtain r where "astar_path a b g = Some (Inr r)" by auto
  with Some show ?thesis by (cases r) (simp_all add: calculate_path_def returns_def)
qed

lemma to_product_dense:
  assumes ok: "grid_ok navigation" and dn: "dense d (ws_trajectory ws) (ws_current_time ws)"
  shows "\<exists>ws'. to_product navigation start_delay product_item ws = Some (Inr ws')
           \<and> dense d (ws_trajectory ws') (ws_current_time ws')
           \<and> ws_current_pos ws' = pickup_location (u_product_data product_item)
           \<and> ws_depot_positions ws' = ws_depot_positions ws"
proof -
  let ?target = "pickup_location (u_product_data product_item)"
  from calculate_path_returns [OF ok] obtain path
    where path: "calculate_path (ws_current_pos ws) ?target navigation = Some (Inr path)" by blast
  obtain tr1 t1 where s1: "stamp_until ?target path (ws_trajectory ws) (ws_current_time ws) = (tr1, t1)"
    by (cases "stamp_until ?target path (ws_trajectory ws) (ws_current_time ws)")
  obtain tr2 t2 where s2: "dwell ?target (visit_time product_item + start_delay) tr1 t1 = (tr2, t2)"
    by (cases "dwell ?target (visit_time product_item + start_delay) tr1 t1")
  from stamp_until_is_stamp_all [of ?target path "ws_trajectory ws" "ws_current_time ws"] s1
  obtain cs where "stamp_all cs (ws_trajectory ws) (ws_current_time ws) = (tr1, t1)" by auto
  from dense_stamp_all(1) [OF dn this] have d1: "dense d tr1 t1" .
  from s2 have "stamp_all (replicate (nat (visit_time product_item + start_delay + 1 - t1)) ?target) tr1 t1
      = (tr2, t2)" by (simp add: dwell_is_stamp_all)
  from dense_stamp_all(1) [OF d1 this] have d2: "dense d tr2 t2" .
  have "to_product navigation start_delay product_item ws
      = Some (Inr (ws\<lparr>ws_trajectory := tr2, ws_current_pos := ?target, ws_current_time := t2\<rparr>))"
    by (simp add: to_product_def Let_def path s1 s2 returns_def)
  with d2 show ?thesis by simp
qed

lemma to_depot_dense:
  assumes ok: "grid_ok navigation" and dn: "dense d (ws_trajectory ws) (ws_current_time ws)"
  shows "\<exists>ws' depot_path.
             calculate_path (ws_current_pos ws) depot navigation = Some (Inr depot_path)
           \<and> to_depot navigation depot ws = Some (Inr ws')
           \<and> dense d (ws_trajectory ws') (ws_current_time ws')
           \<and> ws_current_time ws' = ws_current_time ws + int (length depot_path) + 2
           \<and> (\<forall>i < length depot_path.
                 dict_get (ws_trajectory ws') (ws_current_time ws + int i) = Some (depot_path ! i))
           \<and> dict_get (ws_trajectory ws') (ws_current_time ws + int (length depot_path)) = Some depot
           \<and> dict_get (ws_trajectory ws') (ws_current_time ws + int (length depot_path) + 1) = Some depot
           \<and> ws_current_pos ws' = depot
           \<and> ws_depot_positions ws' = ws_depot_positions ws @ [depot]"
proof -
  let ?t = "ws_current_time ws"
  from calculate_path_returns [OF ok] obtain dp
    where path: "calculate_path (ws_current_pos ws) depot navigation = Some (Inr dp)" by blast
  obtain tr1 t1 where s1: "stamp_all dp (ws_trajectory ws) ?t = (tr1, t1)"
    by (cases "stamp_all dp (ws_trajectory ws) ?t")
  obtain tr2 t2 where s2: "stamp_all [depot, depot] tr1 t1 = (tr2, t2)"
    by (cases "stamp_all [depot, depot] tr1 t1")
  from dense_stamp_all(1) [OF dn s1] have d1: "dense d tr1 t1" .
  from dense_stamp_all(1) [OF d1 s2] have d2: "dense d tr2 t2" .
  from stamp_all_props [OF s1] have t1: "t1 = ?t + int (length dp)"
    and v1: "\<And>i. i < length dp \<Longrightarrow> dict_get tr1 (?t + int i) = Some (dp ! i)" by simp_all
  from stamp_all_props [OF s2] have t2: "t2 = t1 + 2"
    and v2: "\<And>i. i < 2 \<Longrightarrow> dict_get tr2 (t1 + int i) = Some ([depot, depot] ! i)"
    and old: "\<And>k. k < t1 \<Longrightarrow> dict_get tr2 k = dict_get tr1 k" by simp_all
  have a: "dict_get tr2 (?t + int i) = Some (dp ! i)" if "i < length dp" for i
    using old [of "?t + int i"] v1 [OF that] that t1 by simp
  from v2 [of 0] have b: "dict_get tr2 (?t + int (length dp)) = Some depot" by (simp add: t1)
  from v2 [of 1] have c: "dict_get tr2 (?t + int (length dp) + 1) = Some depot" by (simp add: t1)
  have "to_depot navigation depot ws
      = Some (Inr \<lparr>ws_trajectory = tr2, ws_depot_positions = ws_depot_positions ws @ [depot],
                    ws_current_pos = depot, ws_current_time = t2\<rparr>)"
    by (simp only: to_depot_def path and_then_Some_Inr Let_def s1 s2 fst_conv snd_conv returns_def)
  with path d2 a b c t1 t2 show ?thesis by simp
qed

lemma to_entry_dense:
  assumes ok: "grid_ok navigation" and dn: "dense d (ws_trajectory ws) (ws_current_time ws)"
  shows "\<exists>ws' entry_path.
             calculate_path (ws_current_pos ws) entry_point navigation = Some (Inr entry_path)
           \<and> to_entry navigation entry_point ws = Some (Inr ws')
           \<and> fst ` set (ws_trajectory ws') = {d..ws_current_time ws + int (length entry_path)}
           \<and> (\<forall>i < length entry_path.
                 dict_get (ws_trajectory ws') (ws_current_time ws + int i) = Some (entry_path ! i))
           \<and> dict_get (ws_trajectory ws') (ws_current_time ws + int (length entry_path)) = Some entry_point
           \<and> (\<forall>k < ws_current_time ws. dict_get (ws_trajectory ws') k = dict_get (ws_trajectory ws) k)
           \<and> ws_depot_positions ws' = ws_depot_positions ws"
proof -
  let ?t = "ws_current_time ws"
  from calculate_path_returns [OF ok] obtain ep
    where path: "calculate_path (ws_current_pos ws) entry_point navigation = Some (Inr ep)" by blast
  obtain tr1 t1 where s1: "stamp_all ep (ws_trajectory ws) ?t = (tr1, t1)"
    by (cases "stamp_all ep (ws_trajectory ws) ?t")
  from dense_stamp_all(1) [OF dn s1] have "dense d tr1 t1" .
  then have k1: "fst ` set tr1 = {d..<t1}" and le: "d \<le> t1" by (simp_all add: dense_def)
  from stamp_all_props [OF s1] have t1: "t1 = ?t + int (length ep)"
    and v1: "\<And>i. i < length ep \<Longrightarrow> dict_get tr1 (?t + int i) = Some (ep ! i)"
    and old: "\<And>k. k < ?t \<Longrightarrow> dict_get tr1 k = dict_get (ws_trajectory ws) k" by simp_all
  let ?tr = "dict_set tr1 t1 entry_point"
  from le have keys: "fst ` set ?tr = {d..t1}" by (auto simp: k1)
  have a: "dict_get ?tr (?t + int i) = Some (ep ! i)" if "i < length ep" for i
    using v1 [OF that] that t1 by simp
  have b: "dict_get ?tr k = dict_get (ws_trajectory ws) k" if "k < ?t" for k
    using old [OF that] that t1 by simp
  have "to_entry navigation entry_point ws
      = Some (Inr (ws\<lparr>ws_trajectory := ?tr, ws_current_time := t1\<rparr>))"
    by (simp only: to_entry_def path and_then_Some_Inr Let_def s1 fst_conv snd_conv returns_def)
  with path keys a b t1 show ?thesis by simp
qed

lemma last_leg:
  assumes ok: "grid_ok navigation" and dn: "dense d (ws_trajectory ws1) (ws_current_time ws1)"
  shows "\<exists>ws' t depot_path entry_path.
             and_then (to_depot navigation depot ws1) (to_entry navigation entry_point) = Some (Inr ws')
           \<and> calculate_path (ws_current_pos ws1) depot navigation = Some (Inr depot_path)
           \<and> calculate_path depot entry_point navigation = Some (Inr entry_path)
           \<and> d \<le> t
           \<and> fst ` set (ws_trajectory ws') = {d..t + int (length depot_path) + 2 + int (length entry_path)}
           \<and> closing_leg (ws_trajectory ws') t depot_path depot entry_path entry_point
           \<and> ws_depot_positions ws' \<noteq> [] \<and> last (ws_depot_positions ws') = depot"
proof -
  let ?t = "ws_current_time ws1"
  from to_depot_dense [OF ok dn, of depot] obtain ws2 dp
    where dp: "calculate_path (ws_current_pos ws1) depot navigation = Some (Inr dp)"
      and td: "to_depot navigation depot ws1 = Some (Inr ws2)"
      and d2: "dense d (ws_trajectory ws2) (ws_current_time ws2)"
      and t2: "ws_current_time ws2 = ?t + int (length dp) + 2"
      and v2: "\<And>i. i < length dp \<Longrightarrow> dict_get (ws_trajectory ws2) (?t + int i) = Some (dp ! i)"
      and w2: "dict_get (ws_trajectory ws2) (?t + int (length dp)) = Some depot"
              "dict_get (ws_trajectory ws2) (?t + int (length dp) + 1) = Some depot"
      and p2: "ws_current_pos ws2 = depot"
      and z2: "ws_depot_positions ws2 = ws_depot_positions ws1 @ [depot]"
    by blast
  from to_entry_dense [OF ok d2, of entry_point] obtain ws3 ep
    where ep: "calculate_path depot entry_point navigation = Some (Inr ep)"
      and te: "to_entry navigation entry_point ws2 = Some (Inr ws3)"
      and k3: "fst ` set (ws_trajectory ws3) = {d..?t + int (length dp) + 2 + int (length ep)}"
      and v3: "\<And>i. i < length ep \<Longrightarrow>
                 dict_get (ws_trajectory ws3) (?t + int (length dp) + 2 + int i) = Some (ep ! i)"
      and w3: "dict_get (ws_trajectory ws3) (?t + int (length dp) + 2 + int (length ep)) = Some entry_point"
      and old: "\<And>k. k < ?t + int (length dp) + 2 \<Longrightarrow>
                 dict_get (ws_trajectory ws3) k = dict_get (ws_trajectory ws2) k"
      and z3: "ws_depot_positions ws3 = ws_depot_positions ws2"
    unfolding p2 t2 by blast
  have a: "dict_get (ws_trajectory ws3) (?t + int i) = Some (dp ! i)" if "i < length dp" for i
    using old [of "?t + int i"] v2 [OF that] that by simp
  have b: "dict_get (ws_trajectory ws3) (?t + int (length dp)) = Some depot"
    using old [of "?t + int (length dp)"] w2(1) by simp
  have c: "dict_get (ws_trajectory ws3) (?t + int (length dp) + 1) = Some depot"
    using old [of "?t + int (length dp) + 1"] w2(2) by simp
  have leg: "closing_leg (ws_trajectory ws3) ?t dp depot ep entry_point"
    using a b c v3 w3 by (simp add: closing_leg_def list_all_iff)
  from dn have le: "d \<le> ?t" by (simp add: dense_def)
  have run: "and_then (to_depot navigation depot ws1) (to_entry navigation entry_point) = Some (Inr ws3)"
    by (simp add: td te)
  from run dp ep le k3 leg z2 z3 show ?thesis by (intro exI [of _ ws3] exI [of _ ?t] exI [of _ dp] exI [of _ ep]) simp
qed

lemma route_loop_dense:
  assumes ok: "grid_ok navigation"
  shows "products_route \<noteq> [] \<Longrightarrow> dense d (ws_trajectory ws) (ws_current_time ws) \<Longrightarrow>
         \<exists>ws' t depot_path entry_path.
             route_loop navigation entry_point depot start_delay products_route ws = Some (Inr ws')
           \<and> calculate_path (pickup_location (u_product_data (last products_route))) depot navigation
               = Some (Inr depot_path)
           \<and> calculate_path depot entry_point navigation = Some (Inr entry_path)
           \<and> d \<le> t
           \<and> fst ` set (ws_trajectory ws') = {d..t + int (length depot_path) + 2 + int (length entry_path)}
           \<and> closing_leg (ws_trajectory ws') t depot_path depot entry_path entry_point
           \<and> ws_depot_positions ws' \<noteq> [] \<and> last (ws_depot_positions ws') = depot"
proof (induction products_route arbitrary: ws)
  case Nil
  then show ?case by simp
next
  case (Cons product_item rest)
  from to_product_dense [OF ok Cons.prems(2), of start_delay product_item] obtain ws1
    where tp: "to_product navigation start_delay product_item ws = Some (Inr ws1)"
      and d1: "dense d (ws_trajectory ws1) (ws_current_time ws1)"
      and p1: "ws_current_pos ws1 = pickup_location (u_product_data product_item)"
    by blast
  show ?case
  proof (cases rest)
    case Nil
    from last_leg [OF ok d1, of depot entry_point] Nil tp p1 show ?thesis by simp
  next
    case (Cons next_item more)
    then have ne: "rest \<noteq> []" by simp
    show ?thesis
    proof (cases "trip_number next_item \<noteq> trip_number product_item")
      case True
      from to_depot_dense [OF ok d1, of depot] obtain ws2
        where td: "to_depot navigation depot ws1 = Some (Inr ws2)"
          and d2: "dense d (ws_trajectory ws2) (ws_current_time ws2)" by blast
      from Cons.IH [OF ne d2] Cons tp td True show ?thesis by simp
    next
      case False
      from Cons.IH [OF ne d1] Cons tp False show ?thesis by simp
    qed
  qed
qed



section \<open>The distance table\<close>

lemma point_distance_sym:
  "well_formed_grid navigation \<Longrightarrow> point_distance navigation a b = point_distance navigation b a"
  by (cases navigation)
     (simp_all add: well_formed_grid_def point_distance_def manhattan_sym [of a b]
        calculate_distance_sym [of _ a b])

lemma point_distance_self: "point_distance navigation a a = Some (Inr 0)"
  by (cases navigation)
     (simp_all add: point_distance_def returns_def manhattan_self calculate_distance_def astar_path_def)

lemma point_distance_returns:
  assumes "well_formed_grid navigation"
  shows "\<exists>d. point_distance navigation a b = Some (Inr d)"
proof (cases navigation)
  case None
  then show ?thesis by (simp add: point_distance_def returns_def)
next
  case (Some g)
  with assms have "rectangular g" "binary_grid g" by (simp_all add: well_formed_grid_def)
  from calculate_distance_value [OF this] Some show ?thesis by (simp add: point_distance_def)
qed

lemma table_row:
  assumes "for_each tos (table_cell navigation from_item) ds0 = Some (Inr ds1)"
    and "distinct (map fst tos)"
  shows "(\<forall>to_item \<in> set tos. \<exists>d. point_distance navigation (snd from_item) (snd to_item) = Some (Inr d)
              \<and> dict_get ds1 (fst from_item, fst to_item) = Some d)
       \<and> (\<forall>k. fst k \<noteq> fst from_item \<longrightarrow> dict_get ds1 k = dict_get ds0 k)
       \<and> (\<forall>k. snd k \<notin> fst ` set tos \<longrightarrow> dict_get ds1 k = dict_get ds0 k)"
  using assms
proof (induction tos arbitrary: ds0)
  case Nil
  then show ?case by (simp add: returns_def)
next
  case (Cons x tos)
  from Cons.prems(1) obtain ds' where x: "table_cell navigation from_item x ds0 = Some (Inr ds')"
    and rest: "for_each tos (table_cell navigation from_item) ds' = Some (Inr ds1)"
    by (auto simp: and_then_eq_returns)
  from x obtain d where d: "point_distance navigation (snd from_item) (snd x) = Some (Inr d)"
    and ds': "ds' = dict_set ds0 (fst from_item, fst x) d"
    by (auto simp: table_cell_def and_then_eq_returns returns_def)
  from Cons.prems(2) have dis: "distinct (map fst tos)" and fresh: "fst x \<notin> fst ` set tos" by auto
  note ih = Cons.IH [OF rest dis]
  from ih have row: "\<And>to_item. to_item \<in> set tos \<Longrightarrow>
      \<exists>d. point_distance navigation (snd from_item) (snd to_item) = Some (Inr d)
          \<and> dict_get ds1 (fst from_item, fst to_item) = Some d" by blast
  from ih have other: "\<And>k. fst k \<noteq> fst from_item \<Longrightarrow> dict_get ds1 k = dict_get ds' k" by blast
  from ih have col: "\<And>k. snd k \<notin> fst ` set tos \<Longrightarrow> dict_get ds1 k = dict_get ds' k" by blast
  have here: "dict_get ds1 (fst from_item, fst x) = Some d"
    using col [of "(fst from_item, fst x)"] fresh by (simp add: ds')
  have a: "\<exists>d. point_distance navigation (snd from_item) (snd to_item) = Some (Inr d)
          \<and> dict_get ds1 (fst from_item, fst to_item) = Some d" if "to_item \<in> set (x # tos)" for to_item
    using that row [of to_item] d here by auto
  have b: "dict_get ds1 k = dict_get ds0 k" if "fst k \<noteq> fst from_item" for k
    using other [OF that] that by (cases k) (simp add: ds')
  have c: "dict_get ds1 k = dict_get ds0 k" if "snd k \<notin> fst ` set (x # tos)" for k
    using col [of k] that by (cases k) (auto simp: ds')
  from a b c show ?case by blast
qed

lemma table_rows:
  assumes "for_each froms (\<lambda>from_item. for_each tos (table_cell navigation from_item)) ds0 = Some (Inr ds1)"
    and "distinct (map fst froms)" and "distinct (map fst tos)"
  shows "(\<forall>from_item \<in> set froms. \<forall>to_item \<in> set tos.
            \<exists>d. point_distance navigation (snd from_item) (snd to_item) = Some (Inr d)
              \<and> dict_get ds1 (fst from_item, fst to_item) = Some d)
       \<and> (\<forall>k. fst k \<notin> fst ` set froms \<longrightarrow> dict_get ds1 k = dict_get ds0 k)"
  using assms(1,2)
proof (induction froms arbitrary: ds0)
  case Nil
  then show ?case by (simp add: returns_def)
next
  case (Cons x froms)
  from Cons.prems(1) obtain ds' where x: "for_each tos (table_cell navigation x) ds0 = Some (Inr ds')"
    and rest: "for_each froms (\<lambda>from_item. for_each tos (table_cell navigation from_item)) ds' = Some (Inr ds1)"
    by (auto simp: and_then_eq_returns)
  from Cons.prems(2) have dis: "distinct (map fst froms)" and fresh: "fst x \<notin> fst ` set froms" by auto
  note row = table_row [OF x assms(3)]
  note ih = Cons.IH [OF rest dis]
  from ih have later: "\<And>from_item to_item. from_item \<in> set froms \<Longrightarrow> to_item \<in> set tos \<Longrightarrow>
      \<exists>d. point_distance navigation (snd from_item) (snd to_item) = Some (Inr d)
          \<and> dict_get ds1 (fst from_item, fst to_item) = Some d" by blast
  from ih have kept: "\<And>k. fst k \<notin> fst ` set froms \<Longrightarrow> dict_get ds1 k = dict_get ds' k" by blast
  from row have first: "\<And>to_item. to_item \<in> set tos \<Longrightarrow>
      \<exists>d. point_distance navigation (snd x) (snd to_item) = Some (Inr d)
          \<and> dict_get ds' (fst x, fst to_item) = Some d" by blast
  from row have other: "\<And>k. fst k \<noteq> fst x \<Longrightarrow> dict_get ds' k = dict_get ds0 k" by blast
  have a: "\<exists>d. point_distance navigation (snd from_item) (snd to_item) = Some (Inr d)
          \<and> dict_get ds1 (fst from_item, fst to_item) = Some d"
    if "from_item \<in> set (x # froms)" "to_item \<in> set tos" for from_item to_item
  proof (cases "from_item = x")
    case True
    from kept [of "(fst x, fst to_item)"] fresh first [OF that(2)] True show ?thesis by simp
  next
    case False
    with that later show ?thesis by simp
  qed
  have b: "dict_get ds1 k = dict_get ds0 k" if "fst k \<notin> fst ` set (x # froms)" for k
    using kept [of k] other [of k] that by simp
  from a b show ?case by blast
qed

lemma build_locations_keys: "fst ` set (build_locations products E) = table_ids products"
proof -
  have "fst ` set (fold (\<lambda>p locs. dict_set locs (pid p) (pickup_location p)) products locs)
          = fst ` set locs \<union> pid ` set products" for locs
    by (induction products arbitrary: locs) auto
  then show ?thesis by (simp add: build_locations_def table_ids_def)
qed

lemma build_locations_distinct: "distinct (map fst (build_locations products E))"
proof -
  have "distinct (map fst locs) \<Longrightarrow>
        distinct (map fst (fold (\<lambda>p locs. dict_set locs (pid p) (pickup_location p)) products locs))" for locs
    by (induction products arbitrary: locs) (simp_all add: distinct_keys_dict_set)
  then show ?thesis by (simp add: build_locations_def)
qed

lemma matrix_entries:
  assumes wf: "well_formed_grid navigation"
  shows "\<exists>dmat. calculate_distance_matrix products E navigation = Some (Inr dmat)
           \<and> dd_locations dmat = build_locations products E
           \<and> (\<forall>from_item \<in> set (build_locations products E). \<forall>to_item \<in> set (build_locations products E).
                \<exists>d. point_distance navigation (snd from_item) (snd to_item) = Some (Inr d)
                  \<and> dict_get (dd_distances dmat) (fst from_item, fst to_item) = Some d)"
proof -
  let ?locs = "build_locations products E"
  from matrix_returns [of navigation products E] point_distance_returns [OF wf]
  obtain dmat where dm: "calculate_distance_matrix products E navigation = Some (Inr dmat)"
    and locs: "dd_locations dmat = ?locs" by blast
  from dm have loop: "for_each ?locs (\<lambda>from_item. for_each ?locs (table_cell navigation from_item)) []
      = Some (Inr (dd_distances dmat))"
    unfolding table_cell_def [abs_def]
    by (auto simp: calculate_distance_matrix_def Let_def and_then_eq_returns returns_def)
  from table_rows [OF loop build_locations_distinct build_locations_distinct] dm locs
  show ?thesis by blast
qed

text \<open>
  C8. With no grid, or with a rectangular grid of cells 0 and 1,
  \<open>calculate_distance_matrix\<close> returns a table that has an entry for every two ids among
  \<open>'entry'\<close> and the product ids, the entry of \<open>(p, q)\<close> is that of \<open>(q, p)\<close>, and the entry
  of \<open>(p, p)\<close> is 0.
\<close>

theorem distance_table_symmetric:
  assumes "well_formed_grid navigation"
  shows "\<exists>dmat. calculate_distance_matrix products E navigation = Some (Inr dmat)
           \<and> fst ` set (dd_locations dmat) = table_ids products
           \<and> (\<forall>p \<in> table_ids products. \<forall>q \<in> table_ids products.
                (\<exists>d. dict_get (dd_distances dmat) (p, q) = Some d
                   \<and> dict_get (dd_distances dmat) (q, p) = Some d)
                \<and> dict_get (dd_distances dmat) (p, p) = Some 0)"
proof -
  let ?locs = "build_locations products E"
  from matrix_entries [OF assms, of products E] obtain dmat
    where dm: "calculate_distance_matrix products E navigation = Some (Inr dmat)"
      and locs: "dd_locations dmat = ?locs"
      and ent: "\<And>from_item to_item. from_item \<in> set ?locs \<Longrightarrow> to_item \<in> set ?locs \<Longrightarrow>
                \<exists>d. point_distance navigation (snd from_item) (snd to_item) = Some (Inr d)
                  \<and> dict_get (dd_distances dmat) (fst from_item, fst to_item) = Some d"
    by blast
  have "(\<exists>d. dict_get (dd_distances dmat) (p, q) = Some d \<and> dict_get (dd_distances dmat) (q, p) = Some d)
        \<and> dict_get (dd_distances dmat) (p, p) = Some 0"
    if "p \<in> table_ids products" "q \<in> table_ids products" for p q
  proof -
    from that obtain lp lq where lp: "(p, lp) \<in> set ?locs" and lq: "(q, lq) \<in> set ?locs"
      unfolding build_locations_keys [symmetric, of products E] by auto
    from ent [OF lp lq] obtain d where d: "point_distance navigation lp lq = Some (Inr d)"
      and pq: "dict_get (dd_distances dmat) (p, q) = Some d" by auto
    from ent [OF lq lp] obtain d' where d': "point_distance navigation lq lp = Some (Inr d')"
      and qp: "dict_get (dd_distances dmat) (q, p) = Some d'" by auto
    from ent [OF lp lp] obtain z where z: "point_distance navigation lp lp = Some (Inr z)"
      and pp: "dict_get (dd_distances dmat) (p, p) = Some z" by auto
    from d d' point_distance_sym [OF assms, of lp lq] have "d' = d" by simp
    moreover from z point_distance_self [of navigation lp] have "z = 0" by simp
    ultimately show ?thesis using pq qp pp by simp
  qed
  with dm locs build_locations_keys [of products E] show ?thesis by auto
qed

lemma wall_grid_ok: "well_formed_grid (Some wall_grid)"
  by (simp add: well_formed_grid_def rectangular_def binary_grid_def wall_grid_def
      grid_width_def grid_height_def)

lemma wall_ids: "table_ids wall_products = {''entry'', ''P1'', ''P2''}"
  by (simp add: table_ids_def wall_products_def ex_p1_def ex_p2_def)

theorem distance_table_symmetric_witness:
  "well_formed_grid (Some wall_grid)
   \<and> (\<exists>dmat d. calculate_distance_matrix wall_products (1, 1) (Some wall_grid) = Some (Inr dmat)
           \<and> fst ` set (dd_locations dmat) = {''entry'', ''P1'', ''P2''}
           \<and> dict_get (dd_distances dmat) (''P1'', ''entry'') = Some d
           \<and> dict_get (dd_distances dmat) (''entry'', ''P1'') = Some d
           \<and> dict_get (dd_distances dmat) (''P1'', ''P1'') = Some 0)"
proof -
  let ?ids = "table_ids wall_products"
  from distance_table_symmetric [OF wall_grid_ok, of wall_products "(1, 1)"] obtain dmat
    where dm: "calculate_distance_matrix wall_products (1, 1) (Some wall_grid) = Some (Inr dmat)"
      and k: "fst ` set (dd_locations dmat) = ?ids"
      and sym: "\<forall>p \<in> ?ids. \<forall>q \<in> ?ids.
                (\<exists>d. dict_get (dd_distances dmat) (p, q) = Some d
                   \<and> dict_get (dd_distances dmat) (q, p) = Some d)
                \<and> dict_get (dd_distances dmat) (p, p) = Some 0"
    by blast
  have p: "''P1'' \<in> ?ids" and e: "''entry'' \<in> ?ids" by (simp_all add: wall_ids)
  from sym [rule_format, OF p e] obtain d
    where "dict_get (dd_distances dmat) (''P1'', ''entry'') = Some d"
      and "dict_get (dd_distances dmat) (''entry'', ''P1'') = Some d"
      and "dict_get (dd_distances dmat) (''P1'', ''P1'') = Some 0" by blast
  with dm k [unfolded wall_ids] wall_grid_ok show ?thesis by blast
qed

end
